theory Spec2Isabelle
  imports Main "HOL-Library.Word"
begin

section \<open>The USB flasher \<^verbatim>\<open>usb-flash.py\<close>\<close>

text \<open>
  The script reads a firmware image, pads it, asks a running dongle to jump to the Nordic
  bootloader, waits for the bootloader to enumerate, writes the image page by page and
  reads it back.  Everything it does to the outside world is a call into PyUSB.  The
  model keeps the log of these calls; the USB side is a parameter that answers each call
  from the log so far, so that a theorem for every \<open>usb\<close> holds for every device and
  every transport behaviour.
\<close>

subsection \<open>Bytes, exceptions and calls\<close>

type_synonym byte = "8 word"

text \<open>
  A device object is identified by the position, in the log, of the \<^verbatim>\<open>usb.core.find\<close>
  call that created it: PyUSB builds a new object on every successful lookup.
\<close>

type_synonym handle = nat

text \<open>Exceptions raised inside PyUSB; all of them are subclasses of \<^verbatim>\<open>Exception\<close>.\<close>

datatype exc = AttributeError | USBError | USBTimeoutError | NoBackendError

text \<open>
  How a run of the script ends when it does not reach its last line: an exception of
  PyUSB that nothing caught, the \<^verbatim>\<open>NameError\<close> of reading \<^verbatim>\<open>dongle\<close> before any
  assignment, or one of the two \<^verbatim>\<open>raise Exception(...)\<close> of the script, the second with
  the \<^verbatim>\<open>page\<close> and \<^verbatim>\<open>block\<close> of its message.
\<close>

datatype error =
    Raised exc
  | NameError
  | NoCompatibleDevice
  | VerificationFailed nat nat

text \<open>
  The calls, with their arguments as the script passes them.  A timeout is \<open>None\<close> when
  the script passes none (PyUSB then uses the device's default).
\<close>

datatype call =
    Find int int
  | Write handle int "int list" "int option"
  | Read handle int int "int option"
  | CtrlTransfer handle int int int int "int list option" "int option"
  | SetConfiguration handle
  | DisposeResources handle
  | Reset handle

text \<open>
  The USB side.  Each field is asked with the log up to and including the call being
  answered: \<open>raises\<close> says whether that call raises, \<open>found\<close> whether a lookup that
  returns finds a device, \<open>received\<close> which bytes a read that returns delivers.
\<close>

record usb =
  raises :: "call list \<Rightarrow> exc option"
  found :: "call list \<Rightarrow> bool"
  received :: "call list \<Rightarrow> byte list"

text \<open>
  A piece of the script takes the log of the calls made before it and returns the calls
  it makes itself, in order, with its result or the exception that ended it.
\<close>

type_synonym 'a io = "call list \<Rightarrow> call list \<times> (error + 'a)"

definition ret :: "'a \<Rightarrow> 'a io" where
  "ret a hist = ([], Inr a)"

definition raise :: "error \<Rightarrow> 'a io" where
  "raise e hist = ([], Inl e)"

text \<open>\<open>seq m f\<close>: run \<open>m\<close>, then \<open>f\<close> on its result; an exception of \<open>m\<close> ends both.\<close>

definition seq :: "'a io \<Rightarrow> ('a \<Rightarrow> 'b io) \<Rightarrow> 'b io" where
  "seq m f hist =
     (case m hist of
        (cs, Inl e) \<Rightarrow> (cs, Inl e)
      | (cs, Inr a) \<Rightarrow> (case f a (hist @ cs) of (cs', r) \<Rightarrow> (cs @ cs', r)))"

text \<open>\<open>attempt m\<close>: a \<^verbatim>\<open>try\<close> whose \<^verbatim>\<open>except\<close> catches every exception of \<open>m\<close>.\<close>

definition attempt :: "'a io \<Rightarrow> (error + 'a) io" where
  "attempt m hist = (case m hist of (cs, r) \<Rightarrow> (cs, Inr r))"

text \<open>A \<^verbatim>\<open>for\<close> loop over a list, threading the variables the body assigns.\<close>

primrec for_each :: "'i list \<Rightarrow> ('i \<Rightarrow> 's \<Rightarrow> 's io) \<Rightarrow> 's \<Rightarrow> 's io" where
  "for_each [] body = (\<lambda>s. ret s)"
| "for_each (i # is) body = (\<lambda>s. seq (body i s) (for_each is body))"

text \<open>One call: it is logged, and it raises when the USB side says so.\<close>

definition issue :: "usb \<Rightarrow> call \<Rightarrow> unit io" where
  "issue u c hist =
     ([c], case raises u (hist @ [c]) of None \<Rightarrow> Inr () | Some x \<Rightarrow> Inl (Raised x))"

definition usb_core_find :: "usb \<Rightarrow> int \<Rightarrow> int \<Rightarrow> handle option io" where
  "usb_core_find u idVendor idProduct hist =
     seq (issue u (Find idVendor idProduct))
       (\<lambda>_ log. ([], Inr (if found u log then Some (length hist) else None))) hist"

definition dongle_write :: "usb \<Rightarrow> handle \<Rightarrow> int \<Rightarrow> int list \<Rightarrow> int option \<Rightarrow> unit io" where
  "dongle_write u dongle endpoint payload timeout = issue u (Write dongle endpoint payload timeout)"

definition dongle_read :: "usb \<Rightarrow> handle \<Rightarrow> int \<Rightarrow> int \<Rightarrow> int option \<Rightarrow> byte list io" where
  "dongle_read u dongle endpoint size_or_buffer timeout =
     seq (issue u (Read dongle endpoint size_or_buffer timeout)) (\<lambda>_ log. ([], Inr (received u log)))"

definition dongle_ctrl_transfer ::
  "usb \<Rightarrow> handle \<Rightarrow> int \<Rightarrow> int \<Rightarrow> int \<Rightarrow> int \<Rightarrow> int list option \<Rightarrow> int option \<Rightarrow> unit io" where
  "dongle_ctrl_transfer u dongle bmRequestType bRequest wValue wIndex payload timeout =
     issue u (CtrlTransfer dongle bmRequestType bRequest wValue wIndex payload timeout)"

definition dongle_set_configuration :: "usb \<Rightarrow> handle \<Rightarrow> unit io" where
  "dongle_set_configuration u dongle = issue u (SetConfiguration dongle)"

definition usb_util_dispose_resources :: "usb \<Rightarrow> handle \<Rightarrow> unit io" where
  "usb_util_dispose_resources u dongle = issue u (DisposeResources dongle)"

definition dongle_reset :: "usb \<Rightarrow> handle \<Rightarrow> unit io" where
  "dongle_reset u dongle = issue u (Reset dongle)"

subsection \<open>Padding the image\<close>

definition usb_timeout :: int where
  "usb_timeout = 2500"

text \<open>\<^verbatim>\<open>data += b'\000' * (512 - len(data) % 512)\<close>\<close>

definition pad :: "byte list \<Rightarrow> byte list" where
  "pad data = data @ replicate (512 - length data mod 512) 0"

text \<open>\<^verbatim>\<open>data[a:b]\<close> for indices that are not negative.\<close>

definition slice :: "'a list \<Rightarrow> nat \<Rightarrow> nat \<Rightarrow> 'a list" where
  "slice xs a b = take (b - a) (drop a xs)"

definition page_count :: "byte list \<Rightarrow> nat" where
  "page_count data = length data div 512"

subsection \<open>Jumping to the bootloader\<close>

text \<open>The variable \<^verbatim>\<open>dongle\<close>: not yet assigned, \<^verbatim>\<open>None\<close>, or a device object.\<close>

datatype pyvar = Unbound | NoneV | Dev handle

definition product_ids :: "int list" where
  "product_ids = [0x0102, 0x7777]"

text \<open>
  The body of \<^verbatim>\<open>for product_id in product_ids\<close>.  The outer \<^verbatim>\<open>except Exception\<close> logs
  and continues, the inner bare \<^verbatim>\<open>except\<close> passes, so the body never raises; it returns
  the value \<^verbatim>\<open>dongle\<close> has afterwards, which an exception inside the lookup leaves as it
  was.
\<close>

definition entry_command :: "usb \<Rightarrow> int \<Rightarrow> handle \<Rightarrow> unit io" where
  "entry_command u product_id dongle =
     (if product_id = 0x0102
      then dongle_write u dongle 0x01 [0xFF] (Some usb_timeout)
      else dongle_ctrl_transfer u dongle 0x40 0xFF 0 0 None (Some usb_timeout))"

definition jump_to_bootloader :: "usb \<Rightarrow> int \<Rightarrow> pyvar \<Rightarrow> pyvar io" where
  "jump_to_bootloader u product_id dongle =
     seq (attempt (usb_core_find u 0x1915 product_id))
       (\<lambda>looked_up. case looked_up of
          Inl e \<Rightarrow> ret dongle
        | Inr None \<Rightarrow> ret NoneV
        | Inr (Some d) \<Rightarrow>
            seq (attempt
                  (seq (entry_command u product_id d)
                    (\<lambda>_. attempt
                       (seq (usb_util_dispose_resources u d) (\<lambda>_. dongle_reset u d)))))
              (\<lambda>_. ret (Dev d)))"

definition find_application :: "usb \<Rightarrow> pyvar \<Rightarrow> pyvar io" where
  "find_application u dongle = for_each product_ids (jump_to_bootloader u) dongle"

subsection \<open>Waiting for the bootloader\<close>

text \<open>
  One round of \<^verbatim>\<open>while time.time() - start < 1\<close>: the lookup, \<^verbatim>\<open>set_configuration\<close>
  and \<^verbatim>\<open>break\<close> when a device is there.  Only \<^verbatim>\<open>AttributeError\<close> is caught, and the
  round then starts over; any other exception ends the script.
\<close>

datatype 'a flow = Break 'a | Continue 'a

definition caught :: "error \<Rightarrow> pyvar \<Rightarrow> pyvar flow io" where
  "caught e dongle = (if e = Raised AttributeError then ret (Continue dongle) else raise e)"

definition poll_bootloader :: "usb \<Rightarrow> pyvar \<Rightarrow> pyvar flow io" where
  "poll_bootloader u dongle =
     seq (attempt (usb_core_find u 0x1915 0x0101))
       (\<lambda>looked_up. case looked_up of
          Inl e \<Rightarrow> caught e dongle
        | Inr None \<Rightarrow> ret (Continue NoneV)
        | Inr (Some d) \<Rightarrow>
            seq (attempt (dongle_set_configuration u d))
              (\<lambda>configured. case configured of
                 Inl e \<Rightarrow> caught e (Dev d)
               | Inr _ \<Rightarrow> ret (Break (Dev d))))"

text \<open>
  The clock is not modelled as a number: \<open>polls\<close> is how many times the loop condition
  holds before the one-second window is over, so the loop runs at most \<open>polls\<close> rounds.
\<close>

primrec find_bootloader :: "usb \<Rightarrow> nat \<Rightarrow> pyvar \<Rightarrow> pyvar io" where
  "find_bootloader u 0 = (\<lambda>dongle. ret dongle)"
| "find_bootloader u (Suc polls) = (\<lambda>dongle.
     seq (poll_bootloader u dongle)
       (\<lambda>f. case f of Break d \<Rightarrow> ret d | Continue d \<Rightarrow> find_bootloader u polls d))"

text \<open>\<^verbatim>\<open>if not dongle: raise Exception('No compatible device found.')\<close>\<close>

definition require_dongle :: "pyvar \<Rightarrow> handle io" where
  "require_dongle dongle =
     (case dongle of
        Unbound \<Rightarrow> raise NameError
      | NoneV \<Rightarrow> raise NoCompatibleDevice
      | Dev d \<Rightarrow> ret d)"

subsection \<open>Writing and verifying\<close>

definition write_block :: "usb \<Rightarrow> handle \<Rightarrow> byte list \<Rightarrow> nat \<Rightarrow> nat \<Rightarrow> unit io" where
  "write_block u dongle data page block =
     (let block_write = slice data (page * 512 + block * 64) (page * 512 + block * 64 + 64)
      in seq (dongle_write u dongle 0x01 (map uint block_write) (Some usb_timeout))
           (\<lambda>_. seq (dongle_read u dongle 0x81 64 (Some usb_timeout)) (\<lambda>_. ret ())))"

definition write_page :: "usb \<Rightarrow> handle \<Rightarrow> byte list \<Rightarrow> nat \<Rightarrow> unit io" where
  "write_page u dongle data page =
     seq (dongle_write u dongle 0x01 [0x02, int page] None)
       (\<lambda>_. seq (dongle_read u dongle 0x81 64 (Some usb_timeout))
         (\<lambda>_. for_each [0..<8] (\<lambda>block _. write_block u dongle data page block) ()))"

definition write_image :: "usb \<Rightarrow> handle \<Rightarrow> byte list \<Rightarrow> unit io" where
  "write_image u dongle data =
     for_each [0..<page_count data] (\<lambda>page _. write_page u dongle data page) ()"

text \<open>The loop variable threaded through verification is \<^verbatim>\<open>block_number\<close>.\<close>

definition verify_block :: "usb \<Rightarrow> handle \<Rightarrow> byte list \<Rightarrow> nat \<Rightarrow> nat \<Rightarrow> nat \<Rightarrow> nat io" where
  "verify_block u dongle data page block block_number =
     seq (dongle_write u dongle 0x01 [0x03, int block_number] (Some usb_timeout))
       (\<lambda>_. seq (dongle_read u dongle 0x81 64 (Some usb_timeout))
         (\<lambda>block_read.
            if block_read \<noteq> slice data (block_number * 64) (block_number * 64 + 64)
            then raise (VerificationFailed page block)
            else ret (block_number + 1)))"

definition verify_page :: "usb \<Rightarrow> handle \<Rightarrow> byte list \<Rightarrow> nat \<Rightarrow> nat \<Rightarrow> nat io" where
  "verify_page u dongle data page block_number =
     seq (dongle_write u dongle 0x01 [0x06, 0] (Some usb_timeout))
       (\<lambda>_. seq (dongle_read u dongle 0x81 64 (Some usb_timeout))
         (\<lambda>_. for_each [0..<8] (verify_block u dongle data page) block_number))"

definition verify_image :: "usb \<Rightarrow> handle \<Rightarrow> byte list \<Rightarrow> nat io" where
  "verify_image u dongle data = for_each [0..<page_count data] (verify_page u dongle data) 0"

definition write_and_verify :: "usb \<Rightarrow> handle \<Rightarrow> byte list \<Rightarrow> unit io" where
  "write_and_verify u dongle data =
     seq (write_image u dongle data) (\<lambda>_. seq (verify_image u dongle data) (\<lambda>_. ret ()))"

subsection \<open>The whole script\<close>

text \<open>From the bytes of the firmware file to the last log line, on an empty call log.\<close>

definition main :: "usb \<Rightarrow> nat \<Rightarrow> byte list \<Rightarrow> call list \<times> (error + unit)" where
  "main u polls file =
     (let data = pad file
      in seq (find_application u Unbound)
           (\<lambda>dongle. seq (find_bootloader u polls dongle)
             (\<lambda>dongle. seq (require_dongle dongle)
               (\<lambda>d. write_and_verify u d data))) [])"

subsection \<open>Reading the call log\<close>

text \<open>The command that asks a device found under \<open>product_id\<close> to jump.\<close>

definition entry_call :: "int \<Rightarrow> handle \<Rightarrow> call" where
  "entry_call product_id d =
     (if product_id = 0x0102 then Write d 0x01 [0xFF] (Some 2500)
      else CtrlTransfer d 0x40 0xFF 0 0 None (Some 2500))"

fun is_lookup :: "call \<Rightarrow> bool" where
  "is_lookup (Find _ _) = True"
| "is_lookup _ = False"

text \<open>A USB side on which every lookup finds a device and no call ever raises.\<close>

definition both_present :: usb where
  "both_present =
     \<lparr>raises = (\<lambda>_. None), found = (\<lambda>_. True), received = (\<lambda>_. replicate 64 0)\<rparr>"

text \<open>
  The global block indices asked for by verify requests \<^verbatim>\<open>[0x03, block_number]\<close>, in the
  order of the log.
\<close>

fun verify_request :: "call \<Rightarrow> int list" where
  "verify_request (Write d ep [c, n] t) = (if c = 0x03 then [n] else [])"
| "verify_request _ = []"

definition verify_requests :: "call list \<Rightarrow> int list" where
  "verify_requests cs = concat (map verify_request cs)"

text \<open>A verification command: a two-byte write that starts with 0x06 or with 0x03.\<close>

fun is_verify_command :: "call \<Rightarrow> bool" where
  "is_verify_command (Write d ep [c, n] t) = (c = 0x06 \<or> c = 0x03)"
| "is_verify_command _ = False"

text \<open>Whether a transfer was passed \<^verbatim>\<open>timeout=usb_timeout\<close>.\<close>

fun carries_usb_timeout :: "call \<Rightarrow> bool" where
  "carries_usb_timeout (Write _ _ _ t) = (t = Some usb_timeout)"
| "carries_usb_timeout (Read _ _ _ t) = (t = Some usb_timeout)"
| "carries_usb_timeout (CtrlTransfer _ _ _ _ _ _ t) = (t = Some usb_timeout)"
| "carries_usb_timeout _ = True"

text \<open>
  \<open>no_call_raised u hist cs\<close>: made one after the other after \<open>hist\<close>, none of the calls
  \<open>cs\<close> raises.
\<close>

fun no_call_raised :: "usb \<Rightarrow> call list \<Rightarrow> call list \<Rightarrow> bool" where
  "no_call_raised u hist [] = True"
| "no_call_raised u hist (c # cs) =
     (raises u (hist @ [c]) = None \<and> no_call_raised u (hist @ [c]) cs)"

text \<open>What the USB side may be assumed to do.\<close>

definition writes_succeed :: "usb \<Rightarrow> bool" where
  "writes_succeed u \<longleftrightarrow> (\<forall>log d ep p t. raises u (log @ [Write d ep p t]) = None)"

definition reads_succeed :: "usb \<Rightarrow> bool" where
  "reads_succeed u \<longleftrightarrow> (\<forall>log d ep n t. raises u (log @ [Read d ep n t]) = None)"

text \<open>\<^verbatim>\<open>data[block_number * 64:block_number * 64 + 64]\<close>, the bytes block \<open>n\<close> is compared with.\<close>

definition block_of :: "byte list \<Rightarrow> nat \<Rightarrow> byte list" where
  "block_of data n = slice data (n * 64) (n * 64 + 64)"

text \<open>The bytes the device returns for the verify request of block \<open>n\<close> made after \<open>log\<close>.\<close>

definition read_back :: "usb \<Rightarrow> call list \<Rightarrow> handle \<Rightarrow> nat \<Rightarrow> byte list" where
  "read_back u log d n =
     received u (log @ [Write d 0x01 [0x03, int n] (Some usb_timeout),
                        Read d 0x81 64 (Some usb_timeout)])"

text \<open>
  Two properties of a piece of the script, used in the proofs: it stops at the first call
  that raises and fails with that exception, and every call it makes satisfies \<open>P\<close>.
\<close>

definition stops_at_failure :: "usb \<Rightarrow> 'a io \<Rightarrow> bool" where
  "stops_at_failure u m \<longleftrightarrow>
     (\<forall>hist. case snd (m hist) of
        Inr a \<Rightarrow> no_call_raised u hist (fst (m hist))
      | Inl e \<Rightarrow> (\<exists>cs c x. fst (m hist) = cs @ [c] \<and> no_call_raised u hist cs
                    \<and> raises u (hist @ cs @ [c]) = Some x \<and> e = Raised x))"

definition only_calls :: "(call \<Rightarrow> bool) \<Rightarrow> 'a io \<Rightarrow> bool" where
  "only_calls P m \<longleftrightarrow> (\<forall>hist. \<forall>c\<in>set (fst (m hist)). P c)"

text \<open>
  A simulated bootloader: \<open>failing\<close> decides which calls raise, every lookup finds it, a
  read that follows the verify request of block \<open>n\<close> returns \<open>flash n\<close> and any other read
  returns an acknowledgement of 64 zero bytes.  The arguments of \<open>requested_block\<close> and
  \<open>header_ack\<close> are logs with the latest call first.
\<close>

fun requested_block :: "call list \<Rightarrow> nat option" where
  "requested_block (Read _ _ _ _ # Write _ _ [c, n] _ # _) = (if c = 0x03 then Some (nat n) else None)"
| "requested_block _ = None"

fun header_ack :: "call list \<Rightarrow> bool" where
  "header_ack (Read _ _ _ _ # Write _ _ [c, _] _ # _) = (c = 0x02)"
| "header_ack _ = False"

definition bootloader :: "(call list \<Rightarrow> exc option) \<Rightarrow> (nat \<Rightarrow> byte list) \<Rightarrow> usb" where
  "bootloader failing flash =
     \<lparr>raises = failing, found = (\<lambda>_. True),
      received = (\<lambda>log. case requested_block (rev log) of
                          Some n \<Rightarrow> flash n | None \<Rightarrow> replicate 64 0)\<rparr>"

text \<open>The acknowledgement of every page header \<^verbatim>\<open>[0x02, page]\<close> times out.\<close>

definition lost_ack :: "call list \<Rightarrow> exc option" where
  "lost_ack log = (if header_ack (rev log) then Some USBTimeoutError else None)"

text \<open>A firmware file of 1000 bytes: padded, two pages and sixteen blocks.\<close>

definition firmware_1000 :: "byte list" where
  "firmware_1000 = replicate 1000 0xAB"

text \<open>The device object a call is made on.\<close>

fun handle_of :: "call \<Rightarrow> handle option" where
  "handle_of (Find _ _) = None"
| "handle_of (Write d _ _ _) = Some d"
| "handle_of (Read d _ _ _) = Some d"
| "handle_of (CtrlTransfer d _ _ _ _ _ _) = Some d"
| "handle_of (SetConfiguration d) = Some d"
| "handle_of (DisposeResources d) = Some d"
| "handle_of (Reset d) = Some d"

text \<open>
  \<open>orderly u hist cs\<close>: in the calls \<open>cs\<close> made after \<open>hist\<close>, a call on a device object
  comes after the lookup that created it, \<^verbatim>\<open>set_configuration\<close> on a device object is the
  call right after that lookup, and a lookup of the bootloader that returns a device is
  followed at once by \<^verbatim>\<open>set_configuration\<close> on it.  \<open>bound_before hist dongle\<close>: a device
  object held in \<^verbatim>\<open>dongle\<close> was created by a lookup of \<open>hist\<close>.
\<close>

fun orderly :: "usb \<Rightarrow> call list \<Rightarrow> call list \<Rightarrow> bool" where
  "orderly u hist [] = True"
| "orderly u hist (c # cs) =
     ((\<forall>d. handle_of c = Some d \<longrightarrow> d < length hist)
      \<and> (\<forall>d. c = SetConfiguration d \<longrightarrow> length hist = Suc d)
      \<and> (c = Find 0x1915 0x0101 \<and> raises u (hist @ [c]) = None \<and> found u (hist @ [c])
            \<longrightarrow> (\<exists>rest. cs = SetConfiguration (length hist) # rest))
      \<and> orderly u (hist @ [c]) cs)"

definition bound_before :: "call list \<Rightarrow> pyvar \<Rightarrow> bool" where
  "bound_before hist dongle \<longleftrightarrow> (\<forall>d. dongle = Dev d \<longrightarrow> d < length hist)"

text \<open>
  The two calls of one verify request, the request for block \<open>n\<close> and the read of its
  answer, and the two calls that open a page of the verification and of the write phase.
\<close>

definition request_and_read :: "handle \<Rightarrow> nat \<Rightarrow> call list" where
  "request_and_read d n =
     [Write d 0x01 [0x03, int n] (Some usb_timeout), Read d 0x81 64 (Some usb_timeout)]"

definition page_head :: "handle \<Rightarrow> call list" where
  "page_head d = [Write d 0x01 [0x06, 0] (Some usb_timeout), Read d 0x81 64 (Some usb_timeout)]"

definition page_header :: "handle \<Rightarrow> nat \<Rightarrow> call list" where
  "page_header d p = [Write d 0x01 [0x02, int p] None, Read d 0x81 64 (Some usb_timeout)]"

text \<open>
  \<open>answers u d P hist cs\<close>: wherever the calls \<open>cs\<close>, made after \<open>hist\<close>, hold the verify
  request of a block \<open>n\<close> and its read, the bytes \<open>y\<close> the device returns to that read
  satisfy \<open>P n y\<close>.  Two such properties: the blocks below \<open>k\<close> read back as the image has
  them; and, besides, block \<open>k\<close> reads back different.
\<close>

definition answers :: "usb \<Rightarrow> handle \<Rightarrow> (nat \<Rightarrow> byte list \<Rightarrow> bool) \<Rightarrow> call list \<Rightarrow> call list \<Rightarrow> bool" where
  "answers u d P hist cs \<longleftrightarrow>
     (\<forall>pre post n. cs = pre @ request_and_read d n @ post \<longrightarrow> P n (read_back u (hist @ pre) d n))"

definition equal_below :: "byte list \<Rightarrow> nat \<Rightarrow> nat \<Rightarrow> byte list \<Rightarrow> bool" where
  "equal_below data k n y \<longleftrightarrow> (n < k \<longrightarrow> y = block_of data n)"

definition first_difference :: "byte list \<Rightarrow> nat \<Rightarrow> nat \<Rightarrow> byte list \<Rightarrow> bool" where
  "first_difference data k n y \<longleftrightarrow>
     (n < k \<longrightarrow> y = block_of data n) \<and> (n = k \<longrightarrow> y \<noteq> block_of data n)"

text \<open>The acknowledgement of every \<^verbatim>\<open>[0x06, 0]\<close> of the verification times out.\<close>

fun verify_ack :: "call list \<Rightarrow> bool" where
  "verify_ack (Read _ _ _ _ # Write _ _ [c, _] _ # _) = (c = 0x06)"
| "verify_ack _ = False"

definition lost_verify_ack :: "call list \<Rightarrow> exc option" where
  "lost_verify_ack log = (if verify_ack (rev log) then Some USBTimeoutError else None)"

text \<open>
  A simulated bootloader with a flash memory.  The page header \<^verbatim>\<open>[0x02, page]\<close> sets the
  write address to the first block of the page; a write of 64 bytes stores them at the
  write address and moves it on by one block; no other call changes the memory.
  \<open>memory log n\<close> is block \<open>n\<close> of the memory after the calls of \<open>log\<close>, starting from an
  empty memory.  On the device \<open>echo failing decay\<close> a read that follows the verify request
  of block \<open>n\<close> returns \<open>decay n\<close> of what the memory holds for block \<open>n\<close> at that moment:
  with the identity for \<open>decay\<close> the device returns what was written, with
  \<open>one_bad_block k\<close> it returns block \<open>k\<close> with its first byte changed.
\<close>

fun store :: "call \<Rightarrow> nat \<times> (nat \<Rightarrow> byte list) \<Rightarrow> nat \<times> (nat \<Rightarrow> byte list)" where
  "store (Write d ep payload t) (address, flash) =
     (if length payload = 64 then (Suc address, flash(address := map word_of_int payload))
      else if length payload = 2 \<and> hd payload = 0x02 then (8 * nat (payload ! 1), flash)
      else (address, flash))"
| "store _ s = s"

definition stored :: "nat \<times> (nat \<Rightarrow> byte list) \<Rightarrow> call list \<Rightarrow> nat \<times> (nat \<Rightarrow> byte list)" where
  "stored s log = foldl (\<lambda>s c. store c s) s log"

definition memory :: "call list \<Rightarrow> nat \<Rightarrow> byte list" where
  "memory log = snd (stored (0, \<lambda>_. []) log)"

definition echo :: "(call list \<Rightarrow> exc option) \<Rightarrow> (nat \<Rightarrow> byte list \<Rightarrow> byte list) \<Rightarrow> usb" where
  "echo failing decay =
     \<lparr>raises = failing, found = (\<lambda>_. True),
      received = (\<lambda>log. case requested_block (rev log) of
                          Some n \<Rightarrow> decay n (memory log n) | None \<Rightarrow> replicate 64 0)\<rparr>"

fun flipped :: "byte list \<Rightarrow> byte list" where
  "flipped [] = []"
| "flipped (b # bs) = (b + 1) # bs"

definition one_bad_block :: "nat \<Rightarrow> nat \<Rightarrow> byte list \<Rightarrow> byte list" where
  "one_bad_block k n bs = (if n = k then flipped bs else bs)"

section \<open>Padding\<close>

lemma length_pad: "length (pad data) = length data + (512 - length data mod 512)"
  by (simp add: pad_def)

lemma fill_page: "(r::nat) < 512 \<Longrightarrow> r + (512 - r) = 512"
  by simp

lemma pad_multiple_of_page: "length (pad data) mod 512 = 0"
proof -
  let ?n = "length data"
  have "(?n + (512 - ?n mod 512)) mod 512 = (?n mod 512 + (512 - ?n mod 512)) mod 512"
    by (rule mod_add_left_eq [symmetric])
  also have "?n mod 512 + (512 - ?n mod 512) = 512"
    by (rule fill_page) simp
  finally show ?thesis by (simp add: length_pad)
qed

lemma pad_keeps_image: "take (length data) (pad data) = data"
  by (simp add: pad_def)

lemma pad_appends_zeros:
  "drop (length data) (pad data) = replicate (512 - length data mod 512) 0"
  by (simp add: pad_def)

lemma pad_never_empty: "512 \<le> length (pad data)"
proof -
  have "length data mod 512 \<le> length data" by (rule mod_less_eq_dividend)
  moreover have "\<And>r. r \<le> length data \<Longrightarrow> 512 \<le> length data + (512 - r)" by simp
  ultimately show ?thesis unfolding length_pad by blast
qed

text \<open>
  C1.  The claim gives the padded length as \<open>L + (512 - L mod 512) mod 512\<close> and says that
  an image whose length is already a multiple of 512 gets no byte appended.  The script
  appends \<open>512 - L mod 512\<close> bytes, which is a whole page of zeros for such an image: a
  512-byte image becomes 1024 bytes (two pages), where the claim's formula gives 512.
\<close>

theorem pad_aligned_image_gets_extra_page:
  "length (pad (replicate 512 0xFF)) = 1024
   \<and> 512 + (512 - 512 mod 512) mod 512 = (512::nat)
   \<and> page_count (pad (replicate 512 0xFF)) = 2
   \<and> drop 512 (pad (replicate 512 0xFF)) = replicate 512 0"
  by (simp add: pad_def page_count_def)

section \<open>Sequencing\<close>

lemma fst_seq_Inr:
  "snd (m hist) = Inr a \<Longrightarrow>
   fst (seq m f hist) = fst (m hist) @ fst (f a (hist @ fst (m hist)))"
  by (cases "m hist") (simp add: seq_def split: prod.splits)

lemma snd_seq_Inr:
  "snd (m hist) = Inr a \<Longrightarrow> snd (seq m f hist) = snd (f a (hist @ fst (m hist)))"
  by (cases "m hist") (simp add: seq_def split: prod.splits)

lemma seq_stops: "snd (m hist) = Inl e \<Longrightarrow> seq m f hist = (fst (m hist), Inl e)"
  by (cases "m hist") (simp add: seq_def)

lemma seq_ret: "seq m ret = m"
  by (rule ext) (auto simp add: seq_def ret_def split: prod.splits sum.splits)

lemma seq_first:
  "\<exists>rest. fst (seq m f hist) = fst (m hist) @ rest"
  by (cases "m hist") (auto simp add: seq_def split: sum.splits prod.splits)

lemma for_each_Cons_Inl:
  "snd (body i s hist) = Inl e \<Longrightarrow>
   for_each (i # is) body s hist = (fst (body i s hist), Inl e)"
  by (simp add: seq_stops)

lemma for_each_Cons_Inr_fst:
  "snd (body i s hist) = Inr s' \<Longrightarrow>
   fst (for_each (i # is) body s hist) =
     fst (body i s hist) @ fst (for_each is body s' (hist @ fst (body i s hist)))"
  by (simp add: fst_seq_Inr)

lemma for_each_Cons_Inr_snd:
  "snd (body i s hist) = Inr s' \<Longrightarrow>
   snd (for_each (i # is) body s hist) =
     snd (for_each is body s' (hist @ fst (body i s hist)))"
  by (simp add: snd_seq_Inr)

lemma for_each_all_return:
  assumes "\<And>i s h. \<exists>s'. snd (body i s h) = Inr s'"
  shows "\<exists>s'. snd (for_each xs body s hist) = Inr s'"
proof (induction xs arbitrary: s hist)
  case Nil
  show ?case by (simp add: ret_def)
next
  case (Cons i xs)
  obtain s' where s': "snd (body i s hist) = Inr s'" using assms by blast
  show ?case
    unfolding for_each_Cons_Inr_snd [of body i s hist s', OF s'] by (rule Cons.IH)
qed

lemma only_calls_ret: "only_calls P (ret a)"
  by (simp add: only_calls_def ret_def)

lemma only_calls_raise: "only_calls P (raise e)"
  by (simp add: only_calls_def raise_def)

lemma only_calls_seq:
  assumes "only_calls P m" and "\<And>a. only_calls P (f a)"
  shows "only_calls P (seq m f)"
  unfolding only_calls_def
proof (intro allI ballI)
  fix hist c
  assume c: "c \<in> set (fst (seq m f hist))"
  have first: "\<forall>c\<in>set (fst (m hist)). P c"
    using assms(1) unfolding only_calls_def by blast
  show "P c"
  proof (cases "snd (m hist)")
    case (Inl e)
    then show ?thesis
      using c first by (simp add: seq_stops [of m hist e f])
  next
    case (Inr a)
    have "\<forall>c\<in>set (fst (f a (hist @ fst (m hist)))). P c"
      using assms(2) [of a] unfolding only_calls_def by blast
    then show ?thesis
      using c first Inr by (auto simp add: fst_seq_Inr [of m hist a f])
  qed
qed

lemma only_calls_for_each:
  assumes "\<And>i s. i \<in> set xs \<Longrightarrow> only_calls P (body i s)"
  shows "only_calls P (for_each xs body s)"
  using assms
proof (induction xs arbitrary: s)
  case Nil
  show ?case by (simp add: only_calls_ret)
next
  case (Cons i xs)
  show ?case
    unfolding for_each.simps
    by (rule only_calls_seq) (simp_all add: Cons)
qed

lemma no_call_raised_append:
  "no_call_raised u hist (a @ b) \<longleftrightarrow> no_call_raised u hist a \<and> no_call_raised u (hist @ a) b"
  by (induction a arbitrary: hist) auto

lemma quiet_device: "raises u = (\<lambda>_. None) \<Longrightarrow> no_call_raised u hist cs"
  by (induction cs arbitrary: hist) simp_all

lemma seq_done:
  "seq m (\<lambda>_. ret ()) hist =
     (fst (m hist), case snd (m hist) of Inl e \<Rightarrow> Inl e | Inr _ \<Rightarrow> Inr ())"
  by (cases "m hist") (simp add: seq_def ret_def split: sum.splits)

lemma append_eq_later:
  assumes "a @ b = pre @ x # post" and "x \<notin> set a"
  shows "\<exists>pre'. pre = a @ pre' \<and> b = pre' @ x # post"
  using assms by (auto simp add: append_eq_append_conv2 append_eq_Cons_conv)

lemma stops_Inr:
  assumes "stops_at_failure u m" and "snd (m hist) = Inr a"
  shows "no_call_raised u hist (fst (m hist))"
  using assms(1) [unfolded stops_at_failure_def, rule_format, of hist] assms(2) by simp

lemma stops_Inl:
  assumes "stops_at_failure u m" and "snd (m hist) = Inl e"
  shows "\<exists>cs c x. fst (m hist) = cs @ [c] \<and> no_call_raised u hist cs
           \<and> raises u (hist @ cs @ [c]) = Some x \<and> e = Raised x"
  using assms(1) [unfolded stops_at_failure_def, rule_format, of hist] assms(2) by simp

lemma stops_ret: "stops_at_failure u (ret a)"
  by (simp add: stops_at_failure_def ret_def)

lemma stops_issue: "stops_at_failure u (issue u c)"
  by (simp add: stops_at_failure_def issue_def split: option.splits)

lemma stops_seq:
  assumes m: "stops_at_failure u m" and f: "\<And>a. stops_at_failure u (f a)"
  shows "stops_at_failure u (seq m f)"
  unfolding stops_at_failure_def
proof
  fix hist
  show "case snd (seq m f hist) of
        Inr a \<Rightarrow> no_call_raised u hist (fst (seq m f hist))
      | Inl e \<Rightarrow> (\<exists>cs c x. fst (seq m f hist) = cs @ [c] \<and> no_call_raised u hist cs
                    \<and> raises u (hist @ cs @ [c]) = Some x \<and> e = Raised x)"
  proof (cases "snd (m hist)")
    case (Inl e)
    show ?thesis
      using stops_Inl [OF m Inl] unfolding seq_stops [of m hist e f, OF Inl]
      by simp
  next
    case (Inr a)
    have first: "no_call_raised u hist (fst (m hist))"
      using m Inr by (rule stops_Inr)
    let ?h = "hist @ fst (m hist)"
    show ?thesis
    proof (cases "snd (f a ?h)")
      case r: (Inr b)
      have "no_call_raised u ?h (fst (f a ?h))"
        using f r by (rule stops_Inr)
      then show ?thesis
        by (simp add: fst_seq_Inr [of m hist a f, OF Inr] snd_seq_Inr [of m hist a f, OF Inr] r no_call_raised_append first)
    next
      case l: (Inl e)
      obtain cs c x where "fst (f a ?h) = cs @ [c]" "no_call_raised u ?h cs"
        "raises u (?h @ cs @ [c]) = Some x" "e = Raised x"
        using stops_Inl [OF f l] by blast
      then have "fst (m hist) @ fst (f a ?h) = (fst (m hist) @ cs) @ [c]
          \<and> no_call_raised u hist (fst (m hist) @ cs)
          \<and> raises u (hist @ (fst (m hist) @ cs) @ [c]) = Some x \<and> e = Raised x"
        by (simp add: no_call_raised_append first)
      then show ?thesis
        unfolding fst_seq_Inr [of m hist a f, OF Inr] snd_seq_Inr [of m hist a f, OF Inr] l by (simp only: sum.case) blast
    qed
  qed
qed

lemma stops_for_each:
  assumes "\<And>i s. stops_at_failure u (body i s)"
  shows "stops_at_failure u (for_each xs body s)"
proof (induction xs arbitrary: s)
  case Nil
  show ?case by (simp add: stops_ret)
next
  case (Cons i xs)
  show ?case
    unfolding for_each.simps by (rule stops_seq) (rule assms, rule Cons.IH)
qed

section \<open>The search for a running application\<close>

lemma find_eq:
  "usb_core_find u v p hist =
     ([Find v p],
      case raises u (hist @ [Find v p]) of
        Some x \<Rightarrow> Inl (Raised x)
      | None \<Rightarrow> Inr (if found u (hist @ [Find v p]) then Some (length hist) else None))"
  by (simp add: usb_core_find_def seq_def issue_def split: option.splits)

lemma entry_command_eq: "entry_command u p d = issue u (entry_call p d)"
  by (simp add: entry_command_def entry_call_def dongle_write_def dongle_ctrl_transfer_def
      usb_timeout_def)

text \<open>The calls of one round of the loop, read off the answers of the USB side.\<close>

lemma jump_calls:
  "fst (jump_to_bootloader u p dongle hist) =
     (if raises u (hist @ [Find 0x1915 p]) \<noteq> None \<or> \<not> found u (hist @ [Find 0x1915 p])
      then [Find 0x1915 p]
      else if raises u (hist @ [Find 0x1915 p, entry_call p (length hist)]) \<noteq> None
      then [Find 0x1915 p, entry_call p (length hist)]
      else if raises u (hist @ [Find 0x1915 p, entry_call p (length hist),
                 DisposeResources (length hist)]) \<noteq> None
      then [Find 0x1915 p, entry_call p (length hist), DisposeResources (length hist)]
      else [Find 0x1915 p, entry_call p (length hist), DisposeResources (length hist),
            Reset (length hist)])"
  by (auto simp add: jump_to_bootloader_def seq_def attempt_def find_eq entry_command_eq
      usb_util_dispose_resources_def dongle_reset_def issue_def ret_def
      split: option.splits prod.splits sum.splits)

lemma jump_never_raises: "\<exists>d. snd (jump_to_bootloader u p dongle hist) = Inr d"
  by (auto simp add: jump_to_bootloader_def seq_def attempt_def find_eq entry_command_eq
      usb_util_dispose_resources_def dongle_reset_def issue_def ret_def
      split: option.splits prod.splits sum.splits)

lemma jump_found_calls:
  assumes "raises u (hist @ [Find 0x1915 p]) = None" and "found u (hist @ [Find 0x1915 p])"
  shows "\<exists>rest. fst (jump_to_bootloader u p dongle hist) =
            [Find 0x1915 p, entry_call p (length hist)] @ rest
          \<and> set rest \<subseteq> {DisposeResources (length hist), Reset (length hist)}"
  using assms by (simp add: jump_calls)

lemma find_application_eq:
  "find_application u dongle =
     seq (jump_to_bootloader u 0x0102 dongle) (jump_to_bootloader u 0x7777)"
  by (simp add: find_application_def product_ids_def seq_ret)

lemma find_application_calls:
  "\<exists>d. fst (find_application u dongle hist) =
     fst (jump_to_bootloader u 0x0102 dongle hist) @
     fst (jump_to_bootloader u 0x7777 d (hist @ fst (jump_to_bootloader u 0x0102 dongle hist)))"
proof -
  obtain d where d: "snd (jump_to_bootloader u 0x0102 dongle hist) = Inr d"
    using jump_never_raises by blast
  have "fst (seq (jump_to_bootloader u 0x0102 dongle) (jump_to_bootloader u 0x7777) hist) =
     fst (jump_to_bootloader u 0x0102 dongle hist) @
     fst (jump_to_bootloader u 0x7777 d (hist @ fst (jump_to_bootloader u 0x0102 dongle hist)))"
    using d by (rule fst_seq_Inr)
  then show ?thesis
    unfolding find_application_eq by blast
qed

text \<open>
  C7.  When the lookup under a product id returns a device, the calls of that round are
  the lookup, then one command, then nothing but \<^verbatim>\<open>dispose_resources\<close> and \<^verbatim>\<open>reset\<close> of
  that device.  Under 0x0102 the command is the write of the single byte 0xFF to endpoint
  0x01; under 0x7777 it is the control transfer (0x40, 0xFF, 0, 0) without data.  Both carry
  the timeout 2500.
\<close>

theorem entry_command_matches_personality:
  assumes "raises u (hist @ [Find 0x1915 product_id]) = None"
    and "found u (hist @ [Find 0x1915 product_id])"
  shows "(product_id = 0x0102 \<longrightarrow>
            (\<exists>rest. fst (jump_to_bootloader u product_id dongle hist) =
                [Find 0x1915 0x0102, Write (length hist) 0x01 [0xFF] (Some 2500)] @ rest
              \<and> set rest \<subseteq> {DisposeResources (length hist), Reset (length hist)}))
       \<and> (product_id = 0x7777 \<longrightarrow>
            (\<exists>rest. fst (jump_to_bootloader u product_id dongle hist) =
                [Find 0x1915 0x7777,
                 CtrlTransfer (length hist) 0x40 0xFF 0 0 None (Some 2500)] @ rest
              \<and> set rest \<subseteq> {DisposeResources (length hist), Reset (length hist)}))"
  using jump_found_calls [OF assms, of dongle] by (auto simp add: entry_call_def)

theorem entry_command_matches_personality_witness:
  "raises both_present [Find 0x1915 0x0102] = None
   \<and> found both_present [Find 0x1915 0x0102]
   \<and> (\<exists>rest. fst (jump_to_bootloader both_present 0x0102 Unbound []) =
          [Find 0x1915 0x0102, Write 0 0x01 [0xFF] (Some 2500)] @ rest
        \<and> set rest \<subseteq> {DisposeResources 0, Reset 0})
   \<and> (\<exists>rest. fst (jump_to_bootloader both_present 0x7777 (Dev 0) [Find 0x1915 0x0102]) =
          [Find 0x1915 0x7777, CtrlTransfer 1 0x40 0xFF 0 0 None (Some 2500)] @ rest
        \<and> set rest \<subseteq> {DisposeResources 1, Reset 1})"
proof -
  have a: "raises both_present log = None" for log
    by (simp add: both_present_def)
  have b: "found both_present log" for log
    by (simp add: both_present_def)
  show ?thesis
    using entry_command_matches_personality
        [where u = both_present and hist = "[]" and product_id = "0x0102"
           and dongle = Unbound, OF a b]
      entry_command_matches_personality
        [where u = both_present and hist = "[Find 0x1915 0x0102]" and product_id = "0x7777"
           and dongle = "Dev 0", OF a b]
    by (simp add: a b)
qed

text \<open>
  C8.  Whatever is attached and whatever the lookups answer, the search makes exactly two
  lookups: vendor 0x1915 with product 0x0102 first, vendor 0x1915 with product 0x7777
  second.
\<close>

theorem application_lookups_in_priority_order:
  "filter is_lookup (fst (find_application u dongle hist)) =
     [Find 0x1915 0x0102, Find 0x1915 0x7777]"
proof -
  have one: "filter is_lookup (fst (jump_to_bootloader u p d h)) = [Find 0x1915 p]" for p d h
    by (simp add: jump_calls entry_call_def)
  obtain d where "fst (find_application u dongle hist) =
     fst (jump_to_bootloader u 0x0102 dongle hist) @
     fst (jump_to_bootloader u 0x7777 d (hist @ fst (jump_to_bootloader u 0x0102 dongle hist)))"
    using find_application_calls by blast
  then show ?thesis by (simp add: one)
qed

text \<open>
  C9.  The claim says that the search stops once a device is found and its entry command
  issued.  The loop has no \<^verbatim>\<open>break\<close>: with both personalities attached the second lookup
  is made after the first device was reset, and the second device is sent its entry command
  as well.
\<close>

theorem search_goes_on_with_both_present:
  "fst (find_application both_present Unbound []) =
     [Find 0x1915 0x0102, Write 0 0x01 [0xFF] (Some 2500), DisposeResources 0, Reset 0,
      Find 0x1915 0x7777, CtrlTransfer 4 0x40 0xFF 0 0 None (Some 2500),
      DisposeResources 4, Reset 4]"
proof -
  obtain d where "fst (find_application both_present Unbound []) =
     fst (jump_to_bootloader both_present 0x0102 Unbound []) @
     fst (jump_to_bootloader both_present 0x7777 d
           ([] @ fst (jump_to_bootloader both_present 0x0102 Unbound [])))"
    using find_application_calls by blast
  then show ?thesis by (simp add: jump_calls entry_call_def both_present_def)
qed

text \<open>
  C9, as the script behaves: when a device is found under 0x0102, its entry command is
  issued and, after the \<^verbatim>\<open>dispose_resources\<close> and \<^verbatim>\<open>reset\<close> that follow it, the lookup
  under 0x7777 is still made.
\<close>

theorem second_lookup_follows_first_entry_command:
  assumes "raises u (hist @ [Find 0x1915 0x0102]) = None"
    and "found u (hist @ [Find 0x1915 0x0102])"
  shows "\<exists>mid rest. fst (find_application u dongle hist) =
           [Find 0x1915 0x0102, Write (length hist) 0x01 [0xFF] (Some 2500)] @ mid @
           Find 0x1915 0x7777 # rest
         \<and> set mid \<subseteq> {DisposeResources (length hist), Reset (length hist)}"
proof -
  obtain mid where first: "fst (jump_to_bootloader u 0x0102 dongle hist) =
      [Find 0x1915 0x0102, Write (length hist) 0x01 [0xFF] (Some 2500)] @ mid"
    and mid: "set mid \<subseteq> {DisposeResources (length hist), Reset (length hist)}"
    using jump_found_calls [OF assms, of dongle] by (auto simp add: entry_call_def)
  obtain d where all: "fst (find_application u dongle hist) =
     fst (jump_to_bootloader u 0x0102 dongle hist) @
     fst (jump_to_bootloader u 0x7777 d (hist @ fst (jump_to_bootloader u 0x0102 dongle hist)))"
    using find_application_calls by blast
  have "\<exists>rest. fst (jump_to_bootloader u 0x7777 d h) = Find 0x1915 0x7777 # rest" for h
    by (simp add: jump_calls)
  then obtain rest where "fst (jump_to_bootloader u 0x7777 d
      (hist @ fst (jump_to_bootloader u 0x0102 dongle hist))) = Find 0x1915 0x7777 # rest"
    by blast
  with all first mid show ?thesis by auto
qed

theorem second_lookup_follows_first_entry_command_witness:
  "raises both_present [Find 0x1915 0x0102] = None
   \<and> found both_present [Find 0x1915 0x0102]
   \<and> (\<exists>mid rest. fst (find_application both_present Unbound []) =
           [Find 0x1915 0x0102, Write 0 0x01 [0xFF] (Some 2500)] @ mid @
           Find 0x1915 0x7777 # rest
         \<and> set mid \<subseteq> {DisposeResources 0, Reset 0})"
proof -
  have a: "raises both_present log = None" for log
    by (simp add: both_present_def)
  have b: "found both_present log" for log
    by (simp add: both_present_def)
  show ?thesis
    using second_lookup_follows_first_entry_command
        [where u = both_present and hist = "[]" and dongle = Unbound, OF a b]
    by (simp add: a b)
qed

section \<open>Transfers\<close>

lemma write_eq:
  "dongle_write u d ep p t hist =
     ([Write d ep p t],
      case raises u (hist @ [Write d ep p t]) of None \<Rightarrow> Inr () | Some x \<Rightarrow> Inl (Raised x))"
  by (simp add: dongle_write_def issue_def)

lemma read_eq:
  "dongle_read u d ep n t hist =
     ([Read d ep n t],
      case raises u (hist @ [Read d ep n t]) of
        None \<Rightarrow> Inr (received u (hist @ [Read d ep n t]))
      | Some x \<Rightarrow> Inl (Raised x))"
  by (simp add: dongle_read_def issue_def seq_def split: option.splits)

lemma write_ok: "writes_succeed u \<Longrightarrow> dongle_write u d ep p t hist = ([Write d ep p t], Inr ())"
  by (simp add: write_eq writes_succeed_def)

lemma read_ok:
  "reads_succeed u \<Longrightarrow>
   dongle_read u d ep n t hist = ([Read d ep n t], Inr (received u (hist @ [Read d ep n t])))"
  by (simp add: read_eq reads_succeed_def)

lemma only_calls_write: "P (Write d ep p t) \<Longrightarrow> only_calls P (dongle_write u d ep p t)"
  by (simp add: only_calls_def write_eq)

lemma only_calls_read: "P (Read d ep n t) \<Longrightarrow> only_calls P (dongle_read u d ep n t)"
  by (simp add: only_calls_def read_eq)

lemma stops_write: "stops_at_failure u (dongle_write u d ep p t)"
  by (simp add: dongle_write_def stops_issue)

lemma stops_read: "stops_at_failure u (dongle_read u d ep n t)"
  by (simp add: stops_at_failure_def read_eq split: option.splits)

lemma raises_bootloader: "raises (bootloader failing flash) = failing"
  by (simp add: bootloader_def)

lemma read_back_bootloader: "read_back (bootloader failing flash) log d n = flash n"
  by (simp add: read_back_def bootloader_def)

lemma lost_ack_write: "lost_ack (log @ [Write d ep p t]) = None"
  by (simp add: lost_ack_def)

lemma lost_ack_verify_read:
  "lost_ack (log @ [Write d ep [0x03, n] t, Read d' ep' k t']) = None"
  by (simp add: lost_ack_def)

lemma lost_ack_header_read:
  "lost_ack (log @ [Write d ep [0x02, n] t, Read d' ep' k t']) = Some USBTimeoutError"
  by (simp add: lost_ack_def)

lemma lost_ack_cases: "lost_ack log = Some x \<Longrightarrow> x = USBTimeoutError"
  by (simp add: lost_ack_def split: if_splits)

lemma upt_Suc_shift: "map int [bn..<bn + Suc n] = int bn # map int [Suc bn..<Suc bn + n]"
  by (simp add: upt_conv_Cons)

lemma upt_join: "map int [s..<s + w] @ map int [s + w..<s + w + n] = map int [s..<s + (w + n)]"
proof -
  have "[s..<s + w + n] = [s..<s + w] @ [s + w..<s + w + n]"
    by (rule upt_add_eq_append) simp
  then have "map int [s..<s + w + n] = map int [s..<s + w] @ map int [s + w..<s + w + n]"
    by simp
  then show ?thesis by (simp only: add.assoc)
qed

lemma upt_split: "i \<le> j \<Longrightarrow> j \<le> k \<Longrightarrow> [i..<k] = [i..<j] @ [j..<k]"
  using upt_add_eq_append [of i j "k - j"] by simp

lemma length_slice: "b \<le> length xs \<Longrightarrow> length (slice xs a b) = b - a"
  by (simp add: slice_def)

lemma block_in_image:
  assumes "page < page_count data" and "block < 8"
  shows "page * 512 + block * 64 + 64 \<le> length data"
proof -
  have "Suc page * 512 \<le> page_count data * 512"
    using assms(1) by (simp only: mult_le_cancel2) simp
  also have "\<dots> \<le> length data"
    by (simp add: page_count_def)
  finally have "page * 512 + 512 \<le> length data" by simp
  moreover have "block * 64 + 64 \<le> 512" using assms(2) by simp
  ultimately show ?thesis by linarith
qed

lemma sample_pages: "page_count (pad firmware_1000) = 2"
  by (simp add: page_count_def pad_def firmware_1000_def)

lemma sample_block_9: "block_of (pad firmware_1000) 9 = replicate 64 0xAB"
  by (simp add: block_of_def slice_def pad_def firmware_1000_def)

section \<open>Writing the image\<close>

lemma stops_write_image: "stops_at_failure u (write_image u d data)"
  unfolding write_image_def write_page_def write_block_def Let_def
  by (intro stops_for_each stops_seq stops_write stops_read stops_ret)

lemma verify_command_length: "is_verify_command (Write d ep p t) \<Longrightarrow> length p = 2"
  by (cases "(Write d ep p t)" rule: is_verify_command.cases) simp_all

lemma write_block_no_verify:
  assumes "page < page_count data" and "block < 8"
  shows "only_calls (\<lambda>c. \<not> is_verify_command c) (write_block u d data page block)"
proof -
  have "length (slice data (page * 512 + block * 64) (page * 512 + block * 64 + 64)) = 64"
    using block_in_image [OF assms] by (simp add: length_slice)
  then have "\<not> is_verify_command
      (Write d 0x01 (map uint (slice data (page * 512 + block * 64) (page * 512 + block * 64 + 64)))
        (Some usb_timeout))"
    using verify_command_length by fastforce
  then show ?thesis
    unfolding write_block_def Let_def
    by (intro only_calls_seq only_calls_write only_calls_read only_calls_ret) simp_all
qed

lemma write_image_no_verify:
  "only_calls (\<lambda>c. \<not> is_verify_command c) (write_image u d data)"
  unfolding write_image_def write_page_def
  by (intro only_calls_for_each only_calls_seq only_calls_write only_calls_read
      write_block_no_verify) simp_all

lemma write_page_lost:
  "write_page (bootloader lost_ack flash) d data page hist =
     ([Write d 0x01 [0x02, int page] None, Read d 0x81 64 (Some usb_timeout)],
      Inl (Raised USBTimeoutError))"
  using lost_ack_header_read [of hist d 1 "int page" None d 129 64 "Some usb_timeout"]
  by (simp add: write_page_def seq_def write_eq read_eq raises_bootloader lost_ack_write
      del: for_each.simps)

lemma write_image_lost:
  "write_image (bootloader lost_ack flash) d (pad firmware) hist =
     ([Write d 0x01 [0x02, 0] None, Read d 0x81 64 (Some usb_timeout)],
      Inl (Raised USBTimeoutError))"
proof -
  have "0 < page_count (pad firmware)"
    using pad_never_empty [of firmware] by (simp add: page_count_def)
  then have pages: "[0..<page_count (pad firmware)] = 0 # [1..<page_count (pad firmware)]"
    by (simp add: upt_conv_Cons)
  show ?thesis
    unfolding write_image_def pages by (simp add: seq_def write_page_lost)
qed

text \<open>
  Every transfer of the write phase is passed \<^verbatim>\<open>timeout=usb_timeout\<close>, but for the write
  of the page header.
\<close>

lemma write_image_timeouts:
  "only_calls (\<lambda>c. carries_usb_timeout c \<or> (\<exists>page. c = Write d 0x01 [0x02, int page] None))
     (write_image u d data)"
  unfolding write_image_def write_page_def write_block_def Let_def
  by (intro only_calls_for_each only_calls_seq only_calls_write only_calls_read only_calls_ret)
    auto

text \<open>
  C5.  The claim says that every transfer of the write and verify phases, the page-header
  write \<^verbatim>\<open>[0x02, page]\<close> included, is issued with the timeout of 2500 ms.  Line 107 calls
  \<^verbatim>\<open>dongle.write(0x01, [0x02, page])\<close> without \<^verbatim>\<open>timeout\<close>, where the seven other
  transfers of the two loops pass \<^verbatim>\<open>timeout=usb_timeout\<close>.  The padded image is never
  empty, so the write phase of every run starts with such a call: for every firmware file
  its first call is the header of page 0, with no timeout.
\<close>

theorem page_header_written_without_timeout:
  "hd (fst (write_image u d (pad firmware) hist)) = Write d 0x01 [0x02, 0] None"
proof -
  have "0 < page_count (pad firmware)"
    using pad_never_empty [of firmware] by (simp add: page_count_def)
  then have pages: "[0..<page_count (pad firmware)] = 0 # [1..<page_count (pad firmware)]"
    by (simp add: upt_conv_Cons)
  obtain rest where "fst (write_image u d (pad firmware) hist) =
      fst (write_page u d (pad firmware) 0 hist) @ rest"
    unfolding write_image_def pages for_each.simps using seq_first by blast
  moreover obtain rest' where "fst (write_page u d (pad firmware) 0 hist) =
      fst (dongle_write u d 0x01 [0x02, int 0] None hist) @ rest'"
    unfolding write_page_def using seq_first by blast
  ultimately show ?thesis by (simp add: write_eq)
qed

text \<open>
  C6.  When one of the calls of the write phase raises, the whole of writing and
  verifying stops at that call and fails with the exception PyUSB raised; the calls made
  are those of the write phase up to it, and none of them is a verification command.
\<close>

theorem failed_write_skips_verification:
  assumes "\<not> no_call_raised u hist (fst (write_image u d data hist))"
  shows "\<exists>x. raises u (hist @ fst (write_and_verify u d data hist)) = Some x
            \<and> snd (write_and_verify u d data hist) = Inl (Raised x)
            \<and> fst (write_and_verify u d data hist) = fst (write_image u d data hist)
            \<and> (\<forall>c\<in>set (fst (write_and_verify u d data hist)). \<not> is_verify_command c)"
proof -
  have "\<exists>e. snd (write_image u d data hist) = Inl e"
  proof (cases "snd (write_image u d data hist)")
    case (Inr a)
    then show ?thesis using stops_Inr [OF stops_write_image Inr] assms by simp
  qed simp
  then obtain e where e: "snd (write_image u d data hist) = Inl e" by blast
  obtain cs c x where parts: "fst (write_image u d data hist) = cs @ [c]"
    "raises u (hist @ cs @ [c]) = Some x" "e = Raised x"
    using stops_Inl [OF stops_write_image e] by blast
  have all: "write_and_verify u d data hist = (fst (write_image u d data hist), Inl e)"
    unfolding write_and_verify_def using e by (rule seq_stops)
  have "\<forall>c\<in>set (fst (write_image u d data hist)). \<not> is_verify_command c"
    using write_image_no_verify [of u d data] unfolding only_calls_def by blast
  then show ?thesis
    using parts by (simp add: all)
qed

theorem failed_write_skips_verification_witness:
  "\<not> no_call_raised (bootloader lost_ack (block_of (pad firmware_1000))) []
        (fst (write_image (bootloader lost_ack (block_of (pad firmware_1000))) 0 (pad firmware_1000) []))
   \<and> snd (write_and_verify (bootloader lost_ack (block_of (pad firmware_1000))) 0 (pad firmware_1000) []) =
       Inl (Raised USBTimeoutError)
   \<and> list_all (\<lambda>c. \<not> is_verify_command c)
       (fst (write_and_verify (bootloader lost_ack (block_of (pad firmware_1000))) 0 (pad firmware_1000) []))"
proof -
  let ?u = "bootloader lost_ack (block_of (pad firmware_1000))"
  have 1: "\<not> no_call_raised ?u [] (fst (write_image ?u 0 (pad firmware_1000) []))"
    using lost_ack_header_read [of "[]" 0 1 0 None 0 129 64 "Some usb_timeout"]
    by (simp add: write_image_lost raises_bootloader)
  obtain x where x: "raises ?u ([] @ fst (write_and_verify ?u 0 (pad firmware_1000) [])) = Some x"
    and res: "snd (write_and_verify ?u 0 (pad firmware_1000) []) = Inl (Raised x)"
    and quiet: "\<forall>c\<in>set (fst (write_and_verify ?u 0 (pad firmware_1000) [])). \<not> is_verify_command c"
    using failed_write_skips_verification [OF 1] by blast
  have "x = USBTimeoutError"
    using x lost_ack_cases by (simp add: raises_bootloader)
  then show ?thesis
    using 1 res quiet by (simp add: list_all_iff)
qed

section \<open>Verifying the image\<close>

lemma verify_requests_simps [simp]:
  "verify_requests [] = []"
  "verify_requests (c # cs) = verify_request c @ verify_requests cs"
  "verify_requests (cs @ cs') = verify_requests cs @ verify_requests cs'"
  by (simp_all add: verify_requests_def)

lemma verify_block_requests:
  "verify_requests (fst (verify_block u d data p b bn hist)) = [int bn]"
  by (simp add: verify_block_def seq_def write_eq read_eq ret_def raise_def
      split: option.splits prod.splits sum.splits)

lemma verify_block_next:
  "snd (verify_block u d data p b bn hist) = Inr bn' \<Longrightarrow> bn' = bn + 1"
  by (simp add: verify_block_def seq_def write_eq read_eq ret_def raise_def
      split: option.splits prod.splits sum.splits if_splits)

text \<open>A loop whose rounds each ask for the next \<open>w\<close> blocks asks for consecutive blocks.\<close>

lemma for_each_counting:
  assumes step: "\<And>i s hist. \<exists>n\<le>w.
       verify_requests (fst (body i s hist)) = map int [s..<s + n]
       \<and> (\<forall>s'. snd (body i s hist) = Inr s' \<longrightarrow> n = w \<and> s' = s + w)"
  shows "\<exists>n\<le>w * length xs.
       verify_requests (fst (for_each xs body s hist)) = map int [s..<s + n]
       \<and> (\<forall>s'. snd (for_each xs body s hist) = Inr s' \<longrightarrow> n = w * length xs \<and> s' = s + n)"
proof (induction xs arbitrary: s hist)
  case Nil
  show ?case by (simp add: ret_def)
next
  case (Cons i xs)
  obtain n1 where n1: "n1 \<le> w"
    and reqs1: "verify_requests (fst (body i s hist)) = map int [s..<s + n1]"
    and fin1: "\<forall>s'. snd (body i s hist) = Inr s' \<longrightarrow> n1 = w \<and> s' = s + w"
    using step by blast
  show ?case
  proof (cases "snd (body i s hist)")
    case (Inl e)
    have all: "for_each (i # xs) body s hist = (fst (body i s hist), Inl e)"
      using Inl by (rule for_each_Cons_Inl)
    have "n1 \<le> w * length (i # xs)" using n1 by simp
    then show ?thesis
      unfolding all using reqs1 by (intro exI [of _ n1]) simp
  next
    case (Inr s')
    then have s': "s' = s + w" and w: "n1 = w" using fin1 by auto
    let ?hist' = "hist @ fst (body i s hist)"
    obtain n2 where n2: "n2 \<le> w * length xs"
      and reqs2: "verify_requests (fst (for_each xs body (s + w) ?hist')) =
          map int [s + w..<s + w + n2]"
      and fin2: "\<forall>t. snd (for_each xs body (s + w) ?hist') = Inr t
          \<longrightarrow> n2 = w * length xs \<and> t = s + w + n2"
      using Cons.IH by blast
    have calls: "fst (for_each (i # xs) body s hist) =
        fst (body i s hist) @ fst (for_each xs body (s + w) ?hist')"
      using Inr unfolding s' by (rule for_each_Cons_Inr_fst)
    have res: "snd (for_each (i # xs) body s hist) = snd (for_each xs body (s + w) ?hist')"
      using Inr unfolding s' by (rule for_each_Cons_Inr_snd)
    have "verify_requests (fst (for_each (i # xs) body s hist)) = map int [s..<s + (w + n2)]"
      unfolding calls by (simp only: verify_requests_simps reqs1 reqs2 w upt_join)
    moreover have "w + n2 \<le> w * length (i # xs)" using n2 by simp
    moreover have "\<forall>t. snd (for_each (i # xs) body s hist) = Inr t
        \<longrightarrow> w + n2 = w * length (i # xs) \<and> t = s + (w + n2)"
      unfolding res using fin2 by auto
    ultimately show ?thesis
      by (intro exI [of _ "w + n2"]) (auto simp del: for_each.simps)
  qed
qed

lemma verify_block_counts:
  "\<exists>n\<le>1. verify_requests (fst (verify_block u d data p b bn hist)) = map int [bn..<bn + n]
     \<and> (\<forall>s'. snd (verify_block u d data p b bn hist) = Inr s' \<longrightarrow> n = 1 \<and> s' = bn + 1)"
  using verify_block_next [of u d data p b bn hist]
  by (intro exI [of _ 1]) (auto simp add: verify_block_requests)

lemma verify_page_counts:
  "\<exists>n\<le>8. verify_requests (fst (verify_page u d data p bn hist)) = map int [bn..<bn + n]
     \<and> (\<forall>s'. snd (verify_page u d data p bn hist) = Inr s' \<longrightarrow> n = 8 \<and> s' = bn + 8)"
proof -
  let ?head = "seq (dongle_write u d 0x01 [0x06, 0] (Some usb_timeout))
      (\<lambda>_. dongle_read u d 0x81 64 (Some usb_timeout))"
  have page: "verify_page u d data p bn =
      seq ?head (\<lambda>_. for_each [0..<8] (verify_block u d data p) bn)"
    by (rule ext) (simp add: verify_page_def seq_def split: prod.splits sum.splits)
  have quiet: "verify_requests (fst (?head hist)) = []"
    by (simp add: seq_def write_eq read_eq split: option.splits)
  have loop: "\<exists>n\<le>1 * length [0..<8::nat].
       verify_requests (fst (for_each [0..<8] (verify_block u d data p) bn h)) =
         map int [bn..<bn + n]
       \<and> (\<forall>s'. snd (for_each [0..<8] (verify_block u d data p) bn h) = Inr s'
            \<longrightarrow> n = 1 * length [0..<8::nat] \<and> s' = bn + n)" for h
    by (rule for_each_counting) (rule verify_block_counts)
  show ?thesis
  proof (cases "snd (?head hist)")
    case (Inl e)
    show ?thesis
      unfolding page seq_stops [of ?head hist e, OF Inl]
      by (intro exI [of _ 0]) (simp add: quiet)
  next
    case (Inr a)
    obtain n where "n \<le> 8"
      and "verify_requests (fst (for_each [0..<8] (verify_block u d data p) bn
             (hist @ fst (?head hist)))) = map int [bn..<bn + n]"
      and "\<forall>s'. snd (for_each [0..<8] (verify_block u d data p) bn
             (hist @ fst (?head hist))) = Inr s' \<longrightarrow> n = 8 \<and> s' = bn + n"
      using loop [of "hist @ fst (?head hist)"] by auto
    then show ?thesis
      unfolding page
      by (intro exI [of _ n])
        (auto simp add: fst_seq_Inr [of ?head hist a, OF Inr] snd_seq_Inr [of ?head hist a, OF Inr] quiet
          simp del: for_each.simps)
  qed
qed

lemma verify_image_timeouts: "only_calls carries_usb_timeout (verify_image u d data)"
  unfolding verify_image_def verify_page_def verify_block_def
  by (intro only_calls_for_each only_calls_seq only_calls_write only_calls_read)
    (simp_all add: only_calls_ret only_calls_raise)

text \<open>
  C4.  Whatever the USB side answers, the block indices of the verify requests
  \<^verbatim>\<open>[0x03, block_number]\<close> made by the verification are \<open>0, 1, \<dots>, n - 1\<close> for some
  \<open>n\<close> that is at most \<open>8 * page_count\<close>: they start at 0, go up by one from each request
  to the next and do not restart with a new page.  When the verification runs to its end,
  \<open>n\<close> is \<open>8 * page_count\<close>.
\<close>

theorem verify_block_index_counts_up:
  "\<exists>n\<le>8 * page_count data.
     verify_requests (fst (verify_image u d data hist)) = map int [0..<n]
     \<and> (\<forall>bn. snd (verify_image u d data hist) = Inr bn \<longrightarrow> n = 8 * page_count data)"
proof -
  have "\<exists>n\<le>8 * length [0..<page_count data].
       verify_requests (fst (for_each [0..<page_count data] (verify_page u d data) 0 hist)) =
         map int [0..<0 + n]
       \<and> (\<forall>s'. snd (for_each [0..<page_count data] (verify_page u d data) 0 hist) = Inr s'
            \<longrightarrow> n = 8 * length [0..<page_count data] \<and> s' = 0 + n)"
    by (rule for_each_counting) (rule verify_page_counts)
  then show ?thesis
    unfolding verify_image_def by auto
qed

lemma verify_block_ok:
  assumes "writes_succeed u" and "reads_succeed u"
  shows "verify_block u d data p b bn hist =
     ([Write d 0x01 [0x03, int bn] (Some usb_timeout), Read d 0x81 64 (Some usb_timeout)],
      if read_back u hist d bn \<noteq> block_of data bn then Inl (VerificationFailed p b)
      else Inr (bn + 1))"
  by (simp add: verify_block_def seq_def write_ok [OF assms(1)] read_ok [OF assms(2)]
      read_back_def block_of_def ret_def raise_def)

text \<open>The block loop of one page, when the blocks it reaches all read back equal.\<close>

lemma verify_blocks_pass:
  assumes ok: "writes_succeed u" "reads_succeed u"
    and good: "\<And>n log. bn \<le> n \<Longrightarrow> n < bn + length bs \<Longrightarrow> read_back u log d n = block_of data n"
  shows "snd (for_each bs (verify_block u d data p) bn hist) = Inr (bn + length bs)"
  using good
proof (induction bs arbitrary: bn hist)
  case Nil
  show ?case by (simp add: ret_def)
next
  case (Cons b bs)
  have here: "read_back u hist d bn = block_of data bn"
    by (rule Cons.prems) simp_all
  have step: "snd (verify_block u d data p b bn hist) = Inr (Suc bn)"
    by (simp add: verify_block_ok [OF ok] here)
  have "snd (for_each bs (verify_block u d data p) (Suc bn) h) = Inr (Suc bn + length bs)" for h
    by (rule Cons.IH) (simp add: Cons.prems)
  then show ?case
    by (simp add: for_each_Cons_Inr_snd [where body = "verify_block u d data p", OF step]
        del: for_each.simps)
qed

lemma verify_head_ok:
  assumes "writes_succeed u" and "reads_succeed u"
  shows "verify_page u d data p bn hist =
     (Write d 0x01 [0x06, 0] (Some usb_timeout) # Read d 0x81 64 (Some usb_timeout) #
        fst (for_each [0..<8] (verify_block u d data p) bn
             (hist @ [Write d 0x01 [0x06, 0] (Some usb_timeout),
                      Read d 0x81 64 (Some usb_timeout)])),
      snd (for_each [0..<8] (verify_block u d data p) bn
             (hist @ [Write d 0x01 [0x06, 0] (Some usb_timeout),
                      Read d 0x81 64 (Some usb_timeout)])))"
  by (simp add: verify_page_def seq_def write_ok [OF assms(1)] read_ok [OF assms(2)]
      split: prod.splits del: for_each.simps)

lemma verify_page_pass:
  assumes ok: "writes_succeed u" "reads_succeed u"
    and good: "\<And>n log. bn \<le> n \<Longrightarrow> n < bn + 8 \<Longrightarrow> read_back u log d n = block_of data n"
  shows "snd (verify_page u d data p bn hist) = Inr (bn + 8)"
proof -
  have "snd (for_each [0..<8] (verify_block u d data p) bn h) = Inr (bn + length [0..<8::nat])"
    for h
    by (rule verify_blocks_pass [OF ok]) (simp add: good)
  then show ?thesis
    by (simp add: verify_head_ok [OF ok] del: for_each.simps)
qed

lemma verify_pages_pass:
  assumes ok: "writes_succeed u" "reads_succeed u"
    and good: "\<And>n log. 8 * a \<le> n \<Longrightarrow> n < 8 * (a + m) \<Longrightarrow> read_back u log d n = block_of data n"
  shows "snd (for_each [a..<a + m] (verify_page u d data) (8 * a) hist) = Inr (8 * (a + m))"
  using good
proof (induction m arbitrary: a hist)
  case 0
  show ?case by (simp add: ret_def)
next
  case (Suc m)
  have list: "[a..<a + Suc m] = a # [Suc a..<Suc a + m]"
    by (simp add: upt_conv_Cons)
  have step: "snd (verify_page u d data a (8 * a) hist) = Inr (8 * Suc a)"
    using verify_page_pass [OF ok, of "8 * a" d data a hist] Suc.prems by simp
  have "snd (for_each [Suc a..<Suc a + m] (verify_page u d data) (8 * Suc a) h) =
      Inr (8 * (Suc a + m))" for h
    by (rule Suc.IH) (simp add: Suc.prems)
  then show ?case
    unfolding list for_each_Cons_Inr_snd [where body = "verify_page u d data", OF step]
    by simp
qed

lemma verify_image_pass:
  assumes ok: "writes_succeed u" "reads_succeed u"
    and good: "\<And>n log. n < 8 * page_count data \<Longrightarrow> read_back u log d n = block_of data n"
  shows "snd (verify_image u d data hist) = Inr (8 * page_count data)"
  using verify_pages_pass [OF ok, of 0 "page_count data" d data hist] good
  by (simp add: verify_image_def)

theorem verify_block_index_counts_up_witness:
  "verify_requests (fst (verify_image (bootloader (\<lambda>_. None) (block_of (pad firmware_1000))) 0 (pad firmware_1000) []))
     = [0, 1, 2, 3, 4, 5, 6, 7, 8, 9, 10, 11, 12, 13, 14, 15]"
proof -
  let ?u = "bootloader (\<lambda>_. None) (block_of (pad firmware_1000))"
  have 1: "writes_succeed ?u" by (simp add: writes_succeed_def raises_bootloader)
  have 2: "reads_succeed ?u" by (simp add: reads_succeed_def raises_bootloader)
  have 3: "read_back ?u log 0 n = block_of (pad firmware_1000) n" for n log
    by (simp add: read_back_bootloader)
  have ran: "snd (verify_image ?u 0 (pad firmware_1000) []) = Inr 16"
    using verify_image_pass [of ?u "pad firmware_1000" 0 "[]", OF 1 2 3] by (simp add: sample_pages)
  obtain n where "verify_requests (fst (verify_image ?u 0 (pad firmware_1000) [])) = map int [0..<n]"
    and "\<forall>bn. snd (verify_image ?u 0 (pad firmware_1000) []) = Inr bn \<longrightarrow> n = 8 * page_count (pad firmware_1000)"
    using verify_block_index_counts_up [of "pad firmware_1000" ?u 0 "[]"] by blast
  then have "verify_requests (fst (verify_image ?u 0 (pad firmware_1000) [])) = map int [0..<16]"
    using ran by (simp add: sample_pages)
  moreover have "map int [0..<16] = [0, 1, 2, 3, 4, 5, 6, 7, 8, 9, 10, 11, 12, 13, 14, 15]"
    by (simp add: upt_rec)
  ultimately show ?thesis by simp
qed

subsection \<open>Runs in which no call raises\<close>

lemma answers_mono:
  "(\<And>n y. P n y \<Longrightarrow> Q n y) \<Longrightarrow> answers u d P hist cs \<Longrightarrow> answers u d Q hist cs"
  unfolding answers_def by blast

lemma answers_equal_below:
  "answers u d (first_difference data k) hist cs \<Longrightarrow> answers u d (equal_below data k) hist cs"
  by (rule answers_mono [of "first_difference data k"]) (simp_all add: first_difference_def equal_below_def)

lemma answers_prefix: "answers u d P hist (a @ b) \<Longrightarrow> answers u d P hist a"
  unfolding answers_def
proof (intro allI impI)
  fix pre post n
  assume all: "\<forall>pre post n. a @ b = pre @ request_and_read d n @ post
      \<longrightarrow> P n (read_back u (hist @ pre) d n)"
    and a: "a = pre @ request_and_read d n @ post"
  have "a @ b = pre @ request_and_read d n @ (post @ b)" using a by simp
  then show "P n (read_back u (hist @ pre) d n)" using all by blast
qed

lemma answers_suffix: "answers u d P hist (a @ b) \<Longrightarrow> answers u d P (hist @ a) b"
  unfolding answers_def
proof (intro allI impI)
  fix pre post n
  assume all: "\<forall>pre post n. a @ b = pre @ request_and_read d n @ post
      \<longrightarrow> P n (read_back u (hist @ pre) d n)"
    and b: "b = pre @ request_and_read d n @ post"
  have "a @ b = (a @ pre) @ request_and_read d n @ post" using b by simp
  then have "P n (read_back u (hist @ (a @ pre)) d n)" using all by blast
  then show "P n (read_back u ((hist @ a) @ pre) d n)" by simp
qed

lemma answers_head:
  "answers u d P hist (request_and_read d n @ rest) \<Longrightarrow> P n (read_back u hist d n)"
  unfolding answers_def
  by (drule spec [of _ "[]"]) auto

text \<open>One block of the verification, when none of its calls raises.\<close>

lemma verify_block_run:
  assumes "no_call_raised u hist (fst (verify_block u d data p b bn hist))"
  shows "verify_block u d data p b bn hist =
     (request_and_read d bn,
      if read_back u hist d bn \<noteq> block_of data bn then Inl (VerificationFailed p b)
      else Inr (bn + 1))"
  using assms
  by (auto simp add: verify_block_def seq_def write_eq read_eq ret_def raise_def
      request_and_read_def read_back_def block_of_def split: option.splits)

text \<open>The block loop of one page, when the blocks it asks for all read back equal.\<close>

lemma run_blocks_pass:
  assumes "no_call_raised u hist (fst (for_each bs (verify_block u d data p) bn hist))"
    and "answers u d (equal_below data hi) hist (fst (for_each bs (verify_block u d data p) bn hist))"
    and "bn + length bs \<le> hi"
  shows "snd (for_each bs (verify_block u d data p) bn hist) = Inr (bn + length bs)"
  using assms
proof (induction bs arbitrary: bn hist)
  case Nil
  show ?case by (simp add: ret_def)
next
  case (Cons b bs)
  let ?body = "verify_block u d data p"
  let ?run = "for_each (b # bs) ?body bn hist"
  obtain rest where split: "fst ?run = fst (?body b bn hist) @ rest"
    unfolding for_each.simps using seq_first by blast
  have "no_call_raised u hist (fst (?body b bn hist))"
    using Cons.prems(1) unfolding split no_call_raised_append by simp
  then have block: "?body b bn hist =
     (request_and_read d bn,
      if read_back u hist d bn \<noteq> block_of data bn then Inl (VerificationFailed p b)
      else Inr (bn + 1))"
    by (rule verify_block_run)
  have "answers u d (equal_below data hi) hist (request_and_read d bn @ rest)"
    using Cons.prems(2) unfolding split block by simp
  then have "equal_below data hi bn (read_back u hist d bn)"
    by (rule answers_head)
  then have same: "read_back u hist d bn = block_of data bn"
    using Cons.prems(3) by (simp add: equal_below_def)
  have step: "snd (?body b bn hist) = Inr (Suc bn)"
    by (simp add: block same)
  have calls: "fst ?run = request_and_read d bn @
      fst (for_each bs ?body (Suc bn) (hist @ request_and_read d bn))"
    using for_each_Cons_Inr_fst [where body = ?body, OF step, of bs] by (simp add: block)
  have res: "snd ?run = snd (for_each bs ?body (Suc bn) (hist @ request_and_read d bn))"
    using for_each_Cons_Inr_snd [where body = ?body, OF step, of bs] by (simp add: block)
  have "snd (for_each bs ?body (Suc bn) (hist @ request_and_read d bn)) =
      Inr (Suc bn + length bs)"
  proof (rule Cons.IH)
    show "no_call_raised u (hist @ request_and_read d bn)
        (fst (for_each bs ?body (Suc bn) (hist @ request_and_read d bn)))"
      using Cons.prems(1) unfolding calls no_call_raised_append by simp
    show "answers u d (equal_below data hi) (hist @ request_and_read d bn)
        (fst (for_each bs ?body (Suc bn) (hist @ request_and_read d bn)))"
      using Cons.prems(2) unfolding calls by (rule answers_suffix)
    show "Suc bn + length bs \<le> hi" using Cons.prems(3) by simp
  qed
  then show ?case unfolding res by simp
qed

text \<open>The block loop of one page, when block \<open>k\<close> is the first that reads back different.\<close>

lemma run_blocks_fail:
  assumes "no_call_raised u hist (fst (for_each bs (verify_block u d data p) bn hist))"
    and "answers u d (first_difference data k) hist
           (fst (for_each bs (verify_block u d data p) bn hist))"
    and "bn \<le> k" and "k < bn + length bs"
  shows "snd (for_each bs (verify_block u d data p) bn hist) =
           Inl (VerificationFailed p (bs ! (k - bn)))
       \<and> verify_requests (fst (for_each bs (verify_block u d data p) bn hist)) =
           map int [bn..<Suc k]"
  using assms
proof (induction bs arbitrary: bn hist)
  case Nil
  then show ?case by simp
next
  case (Cons b bs)
  let ?body = "verify_block u d data p"
  let ?run = "for_each (b # bs) ?body bn hist"
  obtain rest where split: "fst ?run = fst (?body b bn hist) @ rest"
    unfolding for_each.simps using seq_first by blast
  have "no_call_raised u hist (fst (?body b bn hist))"
    using Cons.prems(1) unfolding split no_call_raised_append by simp
  then have block: "?body b bn hist =
     (request_and_read d bn,
      if read_back u hist d bn \<noteq> block_of data bn then Inl (VerificationFailed p b)
      else Inr (bn + 1))"
    by (rule verify_block_run)
  have "answers u d (first_difference data k) hist (request_and_read d bn @ rest)"
    using Cons.prems(2) unfolding split block by simp
  then have here: "first_difference data k bn (read_back u hist d bn)"
    by (rule answers_head)
  show ?case
  proof (cases "k = bn")
    case True
    have step: "snd (?body b bn hist) = Inl (VerificationFailed p b)"
      using here by (simp add: block True first_difference_def)
    show ?thesis
      unfolding for_each_Cons_Inl [where body = ?body, OF step]
      by (simp add: True verify_block_requests)
  next
    case False
    then have lt: "bn < k" using Cons.prems(3) by simp
    have step: "snd (?body b bn hist) = Inr (Suc bn)"
      using here lt by (simp add: block first_difference_def)
    have calls: "fst ?run = request_and_read d bn @
        fst (for_each bs ?body (Suc bn) (hist @ request_and_read d bn))"
      using for_each_Cons_Inr_fst [where body = ?body, OF step, of bs] by (simp add: block)
    have res: "snd ?run = snd (for_each bs ?body (Suc bn) (hist @ request_and_read d bn))"
      using for_each_Cons_Inr_snd [where body = ?body, OF step, of bs] by (simp add: block)
    let ?h = "hist @ request_and_read d bn"
    have IH: "snd (for_each bs ?body (Suc bn) ?h) = Inl (VerificationFailed p (bs ! (k - Suc bn)))
       \<and> verify_requests (fst (for_each bs ?body (Suc bn) ?h)) = map int [Suc bn..<Suc k]"
    proof (rule Cons.IH)
      show "no_call_raised u ?h (fst (for_each bs ?body (Suc bn) ?h))"
        using Cons.prems(1) unfolding calls no_call_raised_append by simp
      show "answers u d (first_difference data k) ?h (fst (for_each bs ?body (Suc bn) ?h))"
        using Cons.prems(2) unfolding calls by (rule answers_suffix)
      show "Suc bn \<le> k" using lt by simp
      show "k < Suc bn + length bs" using Cons.prems(4) by simp
    qed
    have nth: "(b # bs) ! (k - bn) = bs ! (k - Suc bn)"
      using lt by (simp add: nth_Cons')
    have upt: "map int [bn..<Suc k] = int bn # map int [Suc bn..<Suc k]"
      using lt by (simp add: upt_conv_Cons)
    have reqs: "verify_requests (request_and_read d bn) = [int bn]"
      by (simp add: request_and_read_def)
    show ?thesis
      unfolding res calls nth upt using IH by (simp add: reqs)
  qed
qed

text \<open>One page of the verification, when none of its calls raises.\<close>

lemma verify_page_first: "\<exists>rest. fst (verify_page u d data p bn hist) =
    Write d 0x01 [0x06, 0] (Some usb_timeout) # rest"
  by (auto simp add: verify_page_def seq_def write_eq split: option.splits prod.splits sum.splits)

lemma verify_page_run:
  assumes "no_call_raised u hist (fst (verify_page u d data p bn hist))"
  shows "verify_page u d data p bn hist =
     (page_head d @ fst (for_each [0..<8] (verify_block u d data p) bn (hist @ page_head d)),
      snd (for_each [0..<8] (verify_block u d data p) bn (hist @ page_head d)))"
proof -
  have w: "raises u (hist @ [Write d 0x01 [0x06, 0] (Some usb_timeout)]) = None"
    using assms verify_page_first [of u d data p bn hist] by auto
  have "\<exists>rest. fst (verify_page u d data p bn hist) = page_head d @ rest"
    by (auto simp add: verify_page_def seq_def write_eq read_eq w page_head_def
        split: option.splits prod.splits sum.splits simp del: for_each.simps)
  then have r: "raises u (hist @ [Write d 0x01 [0x06, 0] (Some usb_timeout),
      Read d 0x81 64 (Some usb_timeout)]) = None"
    using assms by (auto simp add: page_head_def)
  show ?thesis
    by (simp add: verify_page_def seq_def write_eq read_eq w r page_head_def
        split: prod.splits del: for_each.simps)
qed

lemma run_page_pass:
  assumes raised: "no_call_raised u hist (fst (verify_page u d data p bn hist))"
    and good: "answers u d (equal_below data hi) hist (fst (verify_page u d data p bn hist))"
    and hi: "bn + 8 \<le> hi"
  shows "snd (verify_page u d data p bn hist) = Inr (bn + 8)"
proof -
  note page = verify_page_run [OF raised]
  let ?loop = "for_each [0..<8] (verify_block u d data p) bn (hist @ page_head d)"
  have "snd ?loop = Inr (bn + length [0..<8::nat])"
  proof (rule run_blocks_pass)
    show "no_call_raised u (hist @ page_head d) (fst ?loop)"
      using raised unfolding page no_call_raised_append fst_conv by simp
    show "answers u d (equal_below data hi) (hist @ page_head d) (fst ?loop)"
      using good unfolding page fst_conv by (rule answers_suffix)
    show "bn + length [0..<8::nat] \<le> hi" using hi by simp
  qed
  then show ?thesis unfolding page by simp
qed

lemma run_page_fail:
  assumes raised: "no_call_raised u hist (fst (verify_page u d data p bn hist))"
    and bad: "answers u d (first_difference data k) hist (fst (verify_page u d data p bn hist))"
    and k: "bn \<le> k" "k < bn + 8"
  shows "snd (verify_page u d data p bn hist) = Inl (VerificationFailed p (k - bn))
       \<and> verify_requests (fst (verify_page u d data p bn hist)) = map int [bn..<Suc k]"
proof -
  note page = verify_page_run [OF raised]
  let ?loop = "for_each [0..<8] (verify_block u d data p) bn (hist @ page_head d)"
  have "snd ?loop = Inl (VerificationFailed p ([0..<8] ! (k - bn)))
       \<and> verify_requests (fst ?loop) = map int [bn..<Suc k]"
  proof (rule run_blocks_fail)
    show "no_call_raised u (hist @ page_head d) (fst ?loop)"
      using raised unfolding page no_call_raised_append fst_conv by simp
    show "answers u d (first_difference data k) (hist @ page_head d) (fst ?loop)"
      using bad unfolding page fst_conv by (rule answers_suffix)
    show "bn \<le> k" by (rule k(1))
    show "k < bn + length [0..<8::nat]" using k(2) by simp
  qed
  moreover have "[0..<8] ! (k - bn) = k - bn"
    using k by (simp del: upt_Suc)
  moreover have "verify_requests (page_head d) = []"
    by (simp add: page_head_def)
  ultimately show ?thesis
    unfolding page by (simp del: for_each.simps upt_Suc)
qed

lemma run_pages_pass:
  assumes "no_call_raised u hist (fst (for_each [a..<a + m] (verify_page u d data) (8 * a) hist))"
    and "answers u d (equal_below data hi) hist
           (fst (for_each [a..<a + m] (verify_page u d data) (8 * a) hist))"
    and "8 * (a + m) \<le> hi"
  shows "snd (for_each [a..<a + m] (verify_page u d data) (8 * a) hist) = Inr (8 * (a + m))"
  using assms
proof (induction m arbitrary: a hist)
  case 0
  show ?case by (simp add: ret_def)
next
  case (Suc m)
  let ?body = "verify_page u d data"
  have list: "[a..<a + Suc m] = a # [Suc a..<Suc a + m]"
    by (simp add: upt_conv_Cons)
  let ?run = "for_each (a # [Suc a..<Suc a + m]) ?body (8 * a) hist"
  note prems = Suc.prems [unfolded list]
  obtain rest where split: "fst ?run = fst (?body a (8 * a) hist) @ rest"
    unfolding for_each.simps using seq_first by blast
  have step: "snd (?body a (8 * a) hist) = Inr (8 * Suc a)"
  proof -
    have "snd (?body a (8 * a) hist) = Inr (8 * a + 8)"
    proof (rule run_page_pass)
      show "no_call_raised u hist (fst (?body a (8 * a) hist))"
        using prems(1) unfolding split no_call_raised_append by simp
      show "answers u d (equal_below data hi) hist (fst (?body a (8 * a) hist))"
        using prems(2) unfolding split by (rule answers_prefix)
      show "8 * a + 8 \<le> hi" using prems(3) by simp
    qed
    then show ?thesis by simp
  qed
  let ?h = "hist @ fst (?body a (8 * a) hist)"
  have calls: "fst ?run = fst (?body a (8 * a) hist) @
      fst (for_each [Suc a..<Suc a + m] ?body (8 * Suc a) ?h)"
    using step by (rule for_each_Cons_Inr_fst)
  have res: "snd ?run = snd (for_each [Suc a..<Suc a + m] ?body (8 * Suc a) ?h)"
    using step by (rule for_each_Cons_Inr_snd)
  have "snd (for_each [Suc a..<Suc a + m] ?body (8 * Suc a) ?h) = Inr (8 * (Suc a + m))"
  proof (rule Suc.IH)
    show "no_call_raised u ?h (fst (for_each [Suc a..<Suc a + m] ?body (8 * Suc a) ?h))"
      using prems(1) unfolding calls no_call_raised_append by simp
    show "answers u d (equal_below data hi) ?h
        (fst (for_each [Suc a..<Suc a + m] ?body (8 * Suc a) ?h))"
      using prems(2) unfolding calls by (rule answers_suffix)
    show "8 * (Suc a + m) \<le> hi" using prems(3) by simp
  qed
  then show ?case unfolding list res by simp
qed

lemma run_pages_fail:
  assumes "no_call_raised u hist (fst (for_each [a..<a + m] (verify_page u d data) (8 * a) hist))"
    and "answers u d (first_difference data k) hist
           (fst (for_each [a..<a + m] (verify_page u d data) (8 * a) hist))"
    and "8 * a \<le> k" and "k < 8 * (a + m)"
  shows "snd (for_each [a..<a + m] (verify_page u d data) (8 * a) hist) =
           Inl (VerificationFailed (k div 8) (k mod 8))
       \<and> verify_requests (fst (for_each [a..<a + m] (verify_page u d data) (8 * a) hist)) =
           map int [8 * a..<Suc k]"
  using assms
proof (induction m arbitrary: a hist)
  case 0
  then show ?case by simp
next
  case (Suc m)
  let ?body = "verify_page u d data"
  have list: "[a..<a + Suc m] = a # [Suc a..<Suc a + m]"
    by (simp add: upt_conv_Cons)
  let ?run = "for_each (a # [Suc a..<Suc a + m]) ?body (8 * a) hist"
  note prems = Suc.prems [unfolded list]
  obtain rest where split: "fst ?run = fst (?body a (8 * a) hist) @ rest"
    unfolding for_each.simps using seq_first by blast
  have raised: "no_call_raised u hist (fst (?body a (8 * a) hist))"
    using prems(1) unfolding split no_call_raised_append by simp
  have bad: "answers u d (first_difference data k) hist (fst (?body a (8 * a) hist))"
    using prems(2) unfolding split by (rule answers_prefix)
  show ?case
  proof (cases "k < 8 * a + 8")
    case True
    have page: "snd (?body a (8 * a) hist) = Inl (VerificationFailed a (k - 8 * a))
       \<and> verify_requests (fst (?body a (8 * a) hist)) = map int [8 * a..<Suc k]"
      using raised bad prems(3) True by (rule run_page_fail)
    have "k div 8 = a" using True prems(3) by simp
    moreover have "k mod 8 = k - 8 * a"
      using True prems(3) by (metis \<open>k div 8 = a\<close> minus_mult_div_eq_mod)
    ultimately show ?thesis
      unfolding list
      using page for_each_Cons_Inl [where body = ?body and i = a
          and s = "8 * a" and hist = hist and e = "VerificationFailed a (k - 8 * a)"]
      by simp
  next
    case False
    have step: "snd (?body a (8 * a) hist) = Inr (8 * Suc a)"
    proof -
      have "snd (?body a (8 * a) hist) = Inr (8 * a + 8)"
        using raised
      proof (rule run_page_pass)
        show "answers u d (equal_below data k) hist (fst (?body a (8 * a) hist))"
          using bad by (rule answers_equal_below)
        show "8 * a + 8 \<le> k" using False by simp
      qed
      then show ?thesis by simp
    qed
    have reqs: "verify_requests (fst (?body a (8 * a) hist)) = map int [8 * a..<8 * a + 8]"
      using verify_page_counts [of u d data a "8 * a" hist] step by auto
    let ?h = "hist @ fst (?body a (8 * a) hist)"
    have calls: "fst ?run = fst (?body a (8 * a) hist) @
        fst (for_each [Suc a..<Suc a + m] ?body (8 * Suc a) ?h)"
      using step by (rule for_each_Cons_Inr_fst)
    have res: "snd ?run = snd (for_each [Suc a..<Suc a + m] ?body (8 * Suc a) ?h)"
      using step by (rule for_each_Cons_Inr_snd)
    have IH: "snd (for_each [Suc a..<Suc a + m] ?body (8 * Suc a) ?h) =
           Inl (VerificationFailed (k div 8) (k mod 8))
       \<and> verify_requests (fst (for_each [Suc a..<Suc a + m] ?body (8 * Suc a) ?h)) =
           map int [8 * Suc a..<Suc k]"
    proof (rule Suc.IH)
      show "no_call_raised u ?h (fst (for_each [Suc a..<Suc a + m] ?body (8 * Suc a) ?h))"
        using prems(1) unfolding calls no_call_raised_append by simp
      show "answers u d (first_difference data k) ?h
          (fst (for_each [Suc a..<Suc a + m] ?body (8 * Suc a) ?h))"
        using prems(2) unfolding calls by (rule answers_suffix)
      show "8 * Suc a \<le> k" using False by simp
      show "k < 8 * (Suc a + m)" using prems(4) by simp
    qed
    have join: "map int [8 * a..<8 * a + 8] @ map int [8 * Suc a..<Suc k] =
        map int [8 * a..<Suc k]"
    proof -
      have "[8 * a..<Suc k] = [8 * a..<8 * a + 8] @ [8 * a + 8..<Suc k]"
        by (rule upt_split) (use False in simp_all)
      moreover have "8 * Suc a = 8 * a + 8" by simp
      ultimately show ?thesis by (simp only: map_append)
    qed
    show ?thesis
      unfolding list res calls
      using IH by (simp only: verify_requests_simps reqs join simp_thms)
  qed
qed

lemma run_image_pass:
  assumes "no_call_raised u hist (fst (verify_image u d data hist))"
    and "answers u d (equal_below data (8 * page_count data)) hist (fst (verify_image u d data hist))"
  shows "snd (verify_image u d data hist) = Inr (8 * page_count data)"
  using run_pages_pass [of u hist 0 "page_count data" d data "8 * page_count data"] assms
  by (simp add: verify_image_def)

lemma run_image_fail:
  assumes "no_call_raised u hist (fst (verify_image u d data hist))"
    and "answers u d (first_difference data k) hist (fst (verify_image u d data hist))"
    and "k < 8 * page_count data"
  shows "snd (verify_image u d data hist) = Inl (VerificationFailed (k div 8) (k mod 8))
       \<and> verify_requests (fst (verify_image u d data hist)) = map int [0..<Suc k]"
  using run_pages_fail [of u hist 0 "page_count data" d data k] assms
  by (simp add: verify_image_def del: upt_Suc)

lemma write_and_verify_calls:
  assumes "snd (write_image u d data hist) = Inr ()"
  shows "write_and_verify u d data hist =
     (fst (write_image u d data hist) @
        fst (verify_image u d data (hist @ fst (write_image u d data hist))),
      case snd (verify_image u d data (hist @ fst (write_image u d data hist))) of
        Inl e \<Rightarrow> Inl e | Inr _ \<Rightarrow> Inr ())"
proof -
  let ?w = "write_image u d data"
  let ?v = "seq (verify_image u d data) (\<lambda>_. ret ())"
  have run: "write_and_verify u d data = seq ?w (\<lambda>_. ?v)"
    by (rule ext) (simp add: write_and_verify_def)
  show ?thesis
    unfolding run
    using fst_seq_Inr [of ?w hist "()" "\<lambda>_. ?v", OF assms]
      snd_seq_Inr [of ?w hist "()" "\<lambda>_. ?v", OF assms]
    by (simp add: seq_done prod_eq_iff)
qed

subsection \<open>A device that stores what is written\<close>

lemma raises_echo: "raises (echo failing decay) = failing"
  by (simp add: echo_def)

lemma stored_append: "stored s (a @ b) = stored (stored s a) b"
  by (simp add: stored_def)

lemma stored_inert: "(\<And>c s. c \<in> set cs \<Longrightarrow> store c s = s) \<Longrightarrow> stored s cs = s"
  by (induction cs arbitrary: s) (simp_all add: stored_def)

lemma memory_inert: "(\<And>c s. c \<in> set cs \<Longrightarrow> store c s = s) \<Longrightarrow> memory (log @ cs) = memory log"
  by (simp add: memory_def stored_append stored_inert)

lemma read_back_echo:
  "read_back (echo failing decay) log d n = decay n (memory log n)"
proof -
  have "stored s (log @ request_and_read d n) = stored s log" for s
    unfolding stored_append
    by (rule stored_inert) (auto simp add: request_and_read_def)
  then show ?thesis
    by (simp add: read_back_def echo_def memory_def request_and_read_def)
qed

lemma flipped_differs: "bs \<noteq> [] \<Longrightarrow> flipped bs \<noteq> bs"
  by (cases bs) simp_all

lemma block_of_page: "block_of data (8 * p + b) = slice data (p * 512 + b * 64) (p * 512 + b * 64 + 64)"
proof -
  have "(8 * p + b) * 64 = p * 512 + b * 64" by simp
  then show ?thesis unfolding block_of_def by (simp only:)
qed

lemma length_block:
  assumes "p < page_count data" and "b < 8"
  shows "length (block_of data (8 * p + b)) = 64"
  unfolding block_of_page using block_in_image [OF assms] by (simp add: length_slice)

lemma write_block_run:
  assumes "no_call_raised u hist (fst (write_block u d data p b hist))"
  shows "write_block u d data p b hist =
     ([Write d 0x01 (map uint (block_of data (8 * p + b))) (Some usb_timeout),
       Read d 0x81 64 (Some usb_timeout)], Inr ())"
  using assms
  by (auto simp add: write_block_def Let_def seq_def write_eq read_eq ret_def block_of_page
      split: option.splits)

lemma stored_block:
  assumes "p < page_count data" and "b < 8"
  shows "stored (8 * p + b, fl)
      [Write d ep (map uint (block_of data (8 * p + b))) t, Read d' ep' n t'] =
     (Suc (8 * p + b), fl(8 * p + b := block_of data (8 * p + b)))"
proof -
  have "map word_of_int (map uint bs) = bs" for bs :: "byte list"
    by (induction bs) simp_all
  then show ?thesis
    by (simp add: stored_def length_block [OF assms])
qed

lemma stored_blocks:
  assumes "no_call_raised u hist
      (fst (for_each [a..<a + m] (\<lambda>block _. write_block u d data p block) () hist))"
    and "p < page_count data" and "a + m \<le> 8"
  shows "stored (8 * p + a, fl)
      (fst (for_each [a..<a + m] (\<lambda>block _. write_block u d data p block) () hist)) =
     (8 * p + a + m,
      \<lambda>n. if 8 * p + a \<le> n \<and> n < 8 * p + a + m then block_of data n else fl n)
     \<and> snd (for_each [a..<a + m] (\<lambda>block _. write_block u d data p block) () hist) = Inr ()"
  using assms
proof (induction m arbitrary: a hist fl)
  case 0
  show ?case by (auto simp add: ret_def stored_def fun_eq_iff)
next
  case (Suc m)
  let ?body = "\<lambda>block (_::unit). write_block u d data p block"
  have list: "[a..<a + Suc m] = a # [Suc a..<Suc a + m]"
    by (simp add: upt_conv_Cons)
  let ?run = "for_each (a # [Suc a..<Suc a + m]) ?body () hist"
  note prems = Suc.prems [unfolded list]
  obtain rest where split: "fst ?run = fst (?body a () hist) @ rest"
    unfolding for_each.simps using seq_first by blast
  have "no_call_raised u hist (fst (write_block u d data p a hist))"
    using prems(1) unfolding split no_call_raised_append by simp
  then have block: "write_block u d data p a hist =
     ([Write d 0x01 (map uint (block_of data (8 * p + a))) (Some usb_timeout),
       Read d 0x81 64 (Some usb_timeout)], Inr ())"
    by (rule write_block_run)
  let ?cs = "[Write d 0x01 (map uint (block_of data (8 * p + a))) (Some usb_timeout),
       Read d 0x81 64 (Some usb_timeout)]"
  have step: "snd (?body a () hist) = Inr ()" by (simp add: block)
  have calls: "fst ?run = ?cs @ fst (for_each [Suc a..<Suc a + m] ?body () (hist @ ?cs))"
    using for_each_Cons_Inr_fst [where body = ?body, OF step, of "[Suc a..<Suc a + m]"]
    by (simp add: block)
  have res: "snd ?run = snd (for_each [Suc a..<Suc a + m] ?body () (hist @ ?cs))"
    using for_each_Cons_Inr_snd [where body = ?body, OF step, of "[Suc a..<Suc a + m]"]
    by (simp add: block)
  have a: "a < 8" using prems(3) by simp
  let ?fl = "fl(8 * p + a := block_of data (8 * p + a))"
  have IH: "stored (8 * p + Suc a, ?fl)
      (fst (for_each [Suc a..<Suc a + m] ?body () (hist @ ?cs))) =
     (8 * p + Suc a + m,
      \<lambda>n. if 8 * p + Suc a \<le> n \<and> n < 8 * p + Suc a + m then block_of data n else ?fl n)
     \<and> snd (for_each [Suc a..<Suc a + m] ?body () (hist @ ?cs)) = Inr ()"
  proof (rule Suc.IH)
    show "no_call_raised u (hist @ ?cs) (fst (for_each [Suc a..<Suc a + m] ?body () (hist @ ?cs)))"
      using prems(1) unfolding calls no_call_raised_append by simp
    show "p < page_count data" by (rule prems(2))
    show "Suc a + m \<le> 8" using prems(3) by simp
  qed
  have "stored (8 * p + a, fl) (fst ?run) =
      stored (Suc (8 * p + a), ?fl) (fst (for_each [Suc a..<Suc a + m] ?body () (hist @ ?cs)))"
    unfolding calls stored_append stored_block [OF prems(2) a] by (rule refl)
  also have "\<dots> = (8 * p + Suc a + m,
      \<lambda>n. if 8 * p + Suc a \<le> n \<and> n < 8 * p + Suc a + m then block_of data n else ?fl n)"
    using IH by simp
  also have "\<dots> = (8 * p + a + Suc m,
      \<lambda>n. if 8 * p + a \<le> n \<and> n < 8 * p + a + Suc m then block_of data n else fl n)"
    by (auto simp add: fun_eq_iff)
  finally show ?case unfolding list res using IH by simp
qed

lemma write_page_first: "\<exists>rest. fst (write_page u d data p hist) =
    Write d 0x01 [0x02, int p] None # rest"
  by (auto simp add: write_page_def seq_def write_eq split: option.splits prod.splits sum.splits)

lemma write_page_run:
  assumes "no_call_raised u hist (fst (write_page u d data p hist))"
  shows "write_page u d data p hist =
     (page_header d p @
        fst (for_each [0..<8] (\<lambda>block _. write_block u d data p block) () (hist @ page_header d p)),
      snd (for_each [0..<8] (\<lambda>block _. write_block u d data p block) () (hist @ page_header d p)))"
proof -
  have w: "raises u (hist @ [Write d 0x01 [0x02, int p] None]) = None"
    using assms write_page_first [of u d data p hist] by auto
  have "\<exists>rest. fst (write_page u d data p hist) = page_header d p @ rest"
    by (auto simp add: write_page_def seq_def write_eq read_eq w page_header_def
        split: option.splits prod.splits sum.splits simp del: for_each.simps)
  then have r: "raises u (hist @ [Write d 0x01 [0x02, int p] None,
      Read d 0x81 64 (Some usb_timeout)]) = None"
    using assms by (auto simp add: page_header_def)
  show ?thesis
    by (simp add: write_page_def seq_def write_eq read_eq w r page_header_def
        split: prod.splits del: for_each.simps)
qed

lemma stored_page:
  assumes raised: "no_call_raised u hist (fst (write_page u d data p hist))"
    and p: "p < page_count data"
  shows "snd (stored (c, fl) (fst (write_page u d data p hist))) =
     (\<lambda>n. if 8 * p \<le> n \<and> n < 8 * p + 8 then block_of data n else fl n)
     \<and> snd (write_page u d data p hist) = Inr ()"
proof -
  note page = write_page_run [OF raised]
  let ?loop = "for_each [0..<0 + 8] (\<lambda>block _. write_block u d data p block) ()
      (hist @ page_header d p)"
  have head: "stored (c, fl) (page_header d p) = (8 * p + 0, fl)"
    by (simp add: stored_def page_header_def)
  have "stored (8 * p + 0, fl) (fst ?loop) =
     (8 * p + 0 + 8,
      \<lambda>n. if 8 * p + 0 \<le> n \<and> n < 8 * p + 0 + 8 then block_of data n else fl n)
     \<and> snd ?loop = Inr ()"
  proof (rule stored_blocks)
    show "no_call_raised u (hist @ page_header d p) (fst ?loop)"
      using raised unfolding page no_call_raised_append fst_conv by simp
    show "p < page_count data" by (rule p)
    show "0 + 8 \<le> (8::nat)" by simp
  qed
  then show ?thesis
    unfolding page fst_conv snd_conv stored_append head by simp
qed

lemma stored_pages:
  assumes "no_call_raised u hist
      (fst (for_each [a..<a + m] (\<lambda>page _. write_page u d data page) () hist))"
    and "a + m \<le> page_count data"
  shows "snd (stored (c, fl)
      (fst (for_each [a..<a + m] (\<lambda>page _. write_page u d data page) () hist))) =
     (\<lambda>n. if 8 * a \<le> n \<and> n < 8 * (a + m) then block_of data n else fl n)
     \<and> snd (for_each [a..<a + m] (\<lambda>page _. write_page u d data page) () hist) = Inr ()"
  using assms
proof (induction m arbitrary: a hist c fl)
  case 0
  show ?case by (auto simp add: ret_def stored_def fun_eq_iff)
next
  case (Suc m)
  let ?body = "\<lambda>page (_::unit). write_page u d data page"
  have list: "[a..<a + Suc m] = a # [Suc a..<Suc a + m]"
    by (simp add: upt_conv_Cons)
  let ?run = "for_each (a # [Suc a..<Suc a + m]) ?body () hist"
  note prems = Suc.prems [unfolded list]
  obtain rest where split: "fst ?run = fst (?body a () hist) @ rest"
    unfolding for_each.simps using seq_first by blast
  have raised: "no_call_raised u hist (fst (write_page u d data a hist))"
    using prems(1) unfolding split no_call_raised_append by simp
  have a: "a < page_count data" using prems(2) by simp
  let ?fl = "\<lambda>n. if 8 * a \<le> n \<and> n < 8 * a + 8 then block_of data n else fl n"
  have page: "snd (stored (c, fl) (fst (write_page u d data a hist))) = ?fl
     \<and> snd (write_page u d data a hist) = Inr ()"
    using raised a by (rule stored_page)
  then obtain c' where first: "stored (c, fl) (fst (write_page u d data a hist)) = (c', ?fl)"
    by (cases "stored (c, fl) (fst (write_page u d data a hist))") simp
  have step: "snd (?body a () hist) = Inr ()" using page by simp
  let ?h = "hist @ fst (write_page u d data a hist)"
  have calls: "fst ?run = fst (write_page u d data a hist) @
      fst (for_each [Suc a..<Suc a + m] ?body () ?h)"
    using for_each_Cons_Inr_fst [where body = ?body, OF step, of "[Suc a..<Suc a + m]"] by simp
  have res: "snd ?run = snd (for_each [Suc a..<Suc a + m] ?body () ?h)"
    using for_each_Cons_Inr_snd [where body = ?body, OF step, of "[Suc a..<Suc a + m]"] by simp
  have IH: "snd (stored (c', ?fl) (fst (for_each [Suc a..<Suc a + m] ?body () ?h))) =
     (\<lambda>n. if 8 * Suc a \<le> n \<and> n < 8 * (Suc a + m) then block_of data n else ?fl n)
     \<and> snd (for_each [Suc a..<Suc a + m] ?body () ?h) = Inr ()"
  proof (rule Suc.IH)
    show "no_call_raised u ?h (fst (for_each [Suc a..<Suc a + m] ?body () ?h))"
      using prems(1) unfolding calls no_call_raised_append by simp
    show "Suc a + m \<le> page_count data" using prems(2) by simp
  qed
  have "snd (stored (c, fl) (fst ?run)) =
      snd (stored (c', ?fl) (fst (for_each [Suc a..<Suc a + m] ?body () ?h)))"
    unfolding calls stored_append first by (rule refl)
  also have "\<dots> =
      (\<lambda>n. if 8 * Suc a \<le> n \<and> n < 8 * (Suc a + m) then block_of data n else ?fl n)"
    using IH by simp
  also have "\<dots> = (\<lambda>n. if 8 * a \<le> n \<and> n < 8 * (a + Suc m) then block_of data n else fl n)"
    by (auto simp add: fun_eq_iff)
  finally show ?case unfolding list res using IH by simp
qed

lemma memory_written:
  assumes "no_call_raised u [] (fst (write_image u d data []))"
    and "n < 8 * page_count data"
  shows "memory (fst (write_image u d data [])) n = block_of data n"
  using stored_pages [of u "[]" 0 "page_count data" d data 0 "\<lambda>_. []"] assms
  by (simp add: memory_def write_image_def)

lemma verify_image_inert: "only_calls (\<lambda>c. \<forall>s. store c s = s) (verify_image u d data)"
  unfolding verify_image_def verify_page_def verify_block_def
  by (intro only_calls_for_each only_calls_seq only_calls_write only_calls_read)
    (simp_all add: only_calls_ret only_calls_raise)

text \<open>What the device returns to a verify read of the verification, and of the whole run.\<close>

lemma echo_verify_read:
  assumes run: "fst (verify_image (echo (\<lambda>_. None) decay) d data
        (fst (write_image (echo (\<lambda>_. None) decay) d data []))) = pre @ request_and_read d n @ post"
    and n: "n < 8 * page_count data"
  shows "read_back (echo (\<lambda>_. None) decay) (fst (write_image (echo (\<lambda>_. None) decay) d data []) @ pre) d n =
     decay n (block_of data n)"
proof -
  let ?u = "echo (\<lambda>_. None) decay"
  let ?w = "fst (write_image ?u d data [])"
  have "\<forall>c\<in>set (fst (verify_image ?u d data ?w)). \<forall>s. store c s = s"
    using verify_image_inert [of ?u d data] unfolding only_calls_def by blast
  then have "store c s = s" if "c \<in> set pre" for c s
    using that unfolding run by (cases s) simp
  then have "memory (?w @ pre) = memory ?w"
    by (rule memory_inert)
  moreover have "memory ?w n = block_of data n"
    by (rule memory_written [OF quiet_device n]) (rule raises_echo)
  ultimately show ?thesis
    by (simp add: read_back_echo)
qed

lemma echo_run_read:
  assumes run: "fst (write_and_verify (echo (\<lambda>_. None) decay) d data []) =
        pre @ request_and_read d n @ post"
    and n: "n < 8 * page_count data"
  shows "read_back (echo (\<lambda>_. None) decay) pre d n = decay n (block_of data n)"
proof -
  let ?u = "echo (\<lambda>_. None) decay"
  let ?w = "fst (write_image ?u d data [])"
  let ?x = "Write d 0x01 [0x03, int n] (Some usb_timeout)"
  have quiet: "no_call_raised ?u [] ?w"
    by (rule quiet_device) (rule raises_echo)
  have w: "snd (write_image ?u d data []) = Inr ()"
    using stored_pages [of ?u "[]" 0 "page_count data" d data 0 "\<lambda>_. []"] quiet
    by (simp add: write_image_def)
  have calls: "?w @ fst (verify_image ?u d data ?w) =
      pre @ ?x # (Read d 0x81 64 (Some usb_timeout) # post)"
    using run unfolding write_and_verify_calls [OF w] by (simp add: request_and_read_def)
  have "\<forall>c\<in>set ?w. \<not> is_verify_command c"
    using write_image_no_verify [of ?u d data] unfolding only_calls_def by blast
  moreover have "is_verify_command ?x" by simp
  ultimately have "?x \<notin> set ?w" by blast
  with calls have "\<exists>pre'. pre = ?w @ pre' \<and>
      fst (verify_image ?u d data ?w) = pre' @ ?x # (Read d 0x81 64 (Some usb_timeout) # post)"
    by (rule append_eq_later)
  then obtain pre' where pre: "pre = ?w @ pre'"
    and v: "fst (verify_image ?u d data ?w) = pre' @ ?x # (Read d 0x81 64 (Some usb_timeout) # post)"
    by blast
  have "fst (verify_image ?u d data ?w) = pre' @ request_and_read d n @ post"
    using v by (simp add: request_and_read_def)
  then show ?thesis
    unfolding pre using n by (rule echo_verify_read)
qed

subsection \<open>A lost acknowledgement of the verification\<close>

lemma lost_verify_ack_write: "lost_verify_ack (log @ [Write d ep p t]) = None"
  by (simp add: lost_verify_ack_def)

lemma lost_verify_ack_read:
  "lost_verify_ack (log @ [Write d ep [0x06, n] t, Read d' ep' k t']) = Some USBTimeoutError"
  by (simp add: lost_verify_ack_def)

lemma verify_page_lost:
  "verify_page (bootloader lost_verify_ack flash) d data page bn hist =
     ([Write d 0x01 [0x06, 0] (Some usb_timeout), Read d 0x81 64 (Some usb_timeout)],
      Inl (Raised USBTimeoutError))"
  using lost_verify_ack_read [of hist d 1 0 "Some usb_timeout" d 129 64 "Some usb_timeout"]
  by (simp add: verify_page_def seq_def write_eq read_eq raises_bootloader lost_verify_ack_write
      del: for_each.simps)

lemma verify_image_lost:
  "verify_image (bootloader lost_verify_ack flash) d (pad firmware) hist =
     ([Write d 0x01 [0x06, 0] (Some usb_timeout), Read d 0x81 64 (Some usb_timeout)],
      Inl (Raised USBTimeoutError))"
proof -
  have "0 < page_count (pad firmware)"
    using pad_never_empty [of firmware] by (simp add: page_count_def)
  then have pages: "[0..<page_count (pad firmware)] = 0 # [1..<page_count (pad firmware)]"
    by (simp add: upt_conv_Cons)
  show ?thesis
    unfolding verify_image_def pages by (simp add: seq_def verify_page_lost)
qed

subsection \<open>The first block that reads back different\<close>

text \<open>
  C2.  The claim speaks of every device state in which block \<open>k\<close> reads back different
  while the blocks before it read back equal.  Before the blocks of a page the
  verification writes \<^verbatim>\<open>[0x06, 0]\<close> and reads an acknowledgement, and the script does not
  catch what that read raises: on a device whose block 9 reads back different, whose
  other blocks read back as the image has them and whose acknowledgement of
  \<^verbatim>\<open>[0x06, 0]\<close> times out, the verification ends with that timeout after two calls,
  and no page and block are reported.
\<close>

theorem lost_verify_acknowledgement_hides_mismatch:
  "9 < 8 * page_count (pad firmware_1000)
   \<and> (\<forall>n log d. read_back (bootloader lost_verify_ack
          ((block_of (pad firmware_1000)) (9 := replicate 64 0xFF))) log d n =
        (if n = 9 then replicate 64 0xFF else block_of (pad firmware_1000) n))
   \<and> block_of (pad firmware_1000) 9 \<noteq> replicate 64 0xFF
   \<and> verify_image (bootloader lost_verify_ack
          ((block_of (pad firmware_1000)) (9 := replicate 64 0xFF))) 0 (pad firmware_1000) [] =
       ([Write 0 0x01 [0x06, 0] (Some 2500), Read 0 0x81 64 (Some 2500)],
        Inl (Raised USBTimeoutError))"
  by (simp add: sample_pages read_back_bootloader sample_block_9 verify_image_lost usb_timeout_def)

text \<open>
  C2, for a verification none of whose transfers raises.  Let \<open>k\<close> be a block of the
  image.  If every verify read that the verification makes for a block \<open>n\<close> before \<open>k\<close>
  returns \<^verbatim>\<open>data[n*64 : n*64+64]\<close> and every verify read that it makes for block \<open>k\<close>
  returns something else, then the verification raises with page \<open>k div 8\<close> and block
  \<open>k mod 8\<close>, and the verify requests it has made are those of the blocks
  \<open>0, \<dots>, k\<close>: none beyond \<open>k\<close>.  The reads are those of the run: the verify read whose
  request comes after the calls \<open>pre\<close> of the verification returns
  \<open>read_back u (hist @ pre) d n\<close>.
\<close>

theorem first_mismatch_is_reported:
  assumes "no_call_raised u hist (fst (verify_image u d data hist))"
    and "k < 8 * page_count data"
    and "\<And>pre post n. n < k \<Longrightarrow>
           fst (verify_image u d data hist) = pre @ request_and_read d n @ post \<Longrightarrow>
           read_back u (hist @ pre) d n = block_of data n"
    and "\<And>pre post.
           fst (verify_image u d data hist) = pre @ request_and_read d k @ post \<Longrightarrow>
           read_back u (hist @ pre) d k \<noteq> block_of data k"
  shows "snd (verify_image u d data hist) = Inl (VerificationFailed (k div 8) (k mod 8))
       \<and> verify_requests (fst (verify_image u d data hist)) = map int [0..<Suc k]"
proof -
  have "answers u d (first_difference data k) hist (fst (verify_image u d data hist))"
    unfolding answers_def first_difference_def using assms(3,4) by blast
  with assms(1) show ?thesis using assms(2) by (rule run_image_fail)
qed

text \<open>
  The image is written to a device that stores what is written and returns block 9 with
  its first byte changed; the verification that follows reports page 1, block 1.
\<close>

theorem first_mismatch_is_reported_witness:
  "snd (verify_image (echo (\<lambda>_. None) (one_bad_block 9)) 0 (pad firmware_1000)
          (fst (write_image (echo (\<lambda>_. None) (one_bad_block 9)) 0 (pad firmware_1000) [])))
     = Inl (VerificationFailed 1 1)
   \<and> verify_requests (fst (verify_image (echo (\<lambda>_. None) (one_bad_block 9)) 0 (pad firmware_1000)
          (fst (write_image (echo (\<lambda>_. None) (one_bad_block 9)) 0 (pad firmware_1000) []))))
     = [0, 1, 2, 3, 4, 5, 6, 7, 8, 9]"
proof -
  let ?data = "pad firmware_1000"
  let ?u = "echo (\<lambda>_. None) (one_bad_block 9)"
  let ?hist = "fst (write_image ?u 0 ?data [])"
  have 1: "no_call_raised ?u ?hist (fst (verify_image ?u 0 ?data ?hist))"
    by (rule quiet_device) (rule raises_echo)
  have 2: "9 < 8 * page_count ?data" by (simp add: sample_pages)
  have 3: "read_back ?u (?hist @ pre) 0 n = block_of ?data n"
    if "n < 9" and "fst (verify_image ?u 0 ?data ?hist) = pre @ request_and_read 0 n @ post"
    for pre post n
    using echo_verify_read [OF that(2)] that(1) by (simp add: sample_pages one_bad_block_def)
  have 4: "read_back ?u (?hist @ pre) 0 9 \<noteq> block_of ?data 9"
    if "fst (verify_image ?u 0 ?data ?hist) = pre @ request_and_read 0 9 @ post"
    for pre post
    using echo_verify_read [OF that] flipped_differs [of "block_of ?data 9"]
    by (simp add: sample_pages one_bad_block_def sample_block_9)
  have "[0..<Suc 9] = [0, 1, 2, 3, 4, 5, 6, 7, 8, 9::nat]"
    by (simp add: upt_rec)
  then show ?thesis
    using first_mismatch_is_reported [of ?u ?hist 0 ?data 9, OF 1 2 3 4] by simp
qed

subsection \<open>Writing, then verifying\<close>

text \<open>
  C3.  The claim asks only that every write succeeds and that every verify read returns
  the slice that was written.  Each write of the write phase is followed by the read of
  its acknowledgement, and the script does not catch what that read raises: on a device
  that accepts every write and would return every block as written, but whose
  acknowledgement of a page header times out, the run ends with that timeout after two
  calls.
\<close>

theorem lost_acknowledgement_ends_the_run:
  "writes_succeed (bootloader lost_ack (block_of (pad firmware_1000)))
   \<and> (\<forall>n log d. raises (bootloader lost_ack (block_of (pad firmware_1000)))
          (log @ [Write d 0x01 [0x03, int n] (Some usb_timeout),
                  Read d 0x81 64 (Some usb_timeout)]) = None)
   \<and> (\<forall>n log d. read_back (bootloader lost_ack (block_of (pad firmware_1000))) log d n =
          block_of (pad firmware_1000) n)
   \<and> write_and_verify (bootloader lost_ack (block_of (pad firmware_1000))) 0 (pad firmware_1000) [] =
       ([Write 0 0x01 [0x02, 0] None, Read 0 0x81 64 (Some 2500)],
        Inl (Raised USBTimeoutError))"
  by (simp add: writes_succeed_def raises_bootloader lost_ack_write lost_ack_verify_read
      read_back_bootloader write_and_verify_def seq_def write_image_lost usb_timeout_def)

text \<open>
  C3, with the acknowledgements: when no transfer of the run raises, the reads of the
  acknowledgements among them, and every verify read of the run returns the slice of the
  image for its block index, writing and verifying end without an exception.  The reads
  are those of the run: the verify read whose request comes after the calls \<open>pre\<close> of the
  run returns \<open>read_back u (hist @ pre) d n\<close>.
\<close>

theorem write_then_verify_succeeds:
  assumes "no_call_raised u hist (fst (write_and_verify u d data hist))"
    and "\<And>pre post n. n < 8 * page_count data \<Longrightarrow>
           fst (write_and_verify u d data hist) = pre @ request_and_read d n @ post \<Longrightarrow>
           read_back u (hist @ pre) d n = block_of data n"
  shows "snd (write_and_verify u d data hist) = Inr ()"
proof -
  let ?w = "write_image u d data"
  let ?v = "seq (verify_image u d data) (\<lambda>_. ret ())"
  have run: "write_and_verify u d data = seq ?w (\<lambda>_. ?v)"
    by (rule ext) (simp add: write_and_verify_def)
  obtain rest where first: "fst (write_and_verify u d data hist) = fst (?w hist) @ rest"
    unfolding run using seq_first by blast
  have quiet: "no_call_raised u hist (fst (?w hist))"
    using assms(1) unfolding first no_call_raised_append by simp
  have w: "snd (?w hist) = Inr ()"
  proof (cases "snd (?w hist)")
    case (Inl e)
    obtain cs c x where "fst (?w hist) = cs @ [c]" "raises u (hist @ cs @ [c]) = Some x"
      using stops_Inl [OF stops_write_image Inl] by blast
    then show ?thesis using quiet by (simp add: no_call_raised_append)
  next
    case (Inr a)
    then show ?thesis by simp
  qed
  let ?h = "hist @ fst (?w hist)"
  have calls: "fst (write_and_verify u d data hist) = fst (?w hist) @ fst (verify_image u d data ?h)"
    unfolding run fst_seq_Inr [of ?w hist "()" "\<lambda>_. ?v", OF w] by (simp add: seq_done)
  have res: "snd (write_and_verify u d data hist) = snd (?v ?h)"
    unfolding run by (rule snd_seq_Inr [of ?w hist "()" "\<lambda>_. ?v", OF w])
  have "answers u d (equal_below data (8 * page_count data)) hist
      (fst (write_and_verify u d data hist))"
    unfolding answers_def equal_below_def using assms(2) by blast
  then have good: "answers u d (equal_below data (8 * page_count data)) ?h
      (fst (verify_image u d data ?h))"
    unfolding calls by (rule answers_suffix)
  have "no_call_raised u ?h (fst (verify_image u d data ?h))"
    using assms(1) unfolding calls no_call_raised_append by simp
  then have "snd (verify_image u d data ?h) = Inr (8 * page_count data)"
    using good by (rule run_image_pass)
  then show ?thesis
    unfolding res by (simp add: seq_done)
qed

text \<open>The run on a device that stores what is written and returns it unchanged.\<close>

theorem write_then_verify_succeeds_witness:
  "snd (write_and_verify (echo (\<lambda>_. None) (\<lambda>n bs. bs)) 0 (pad firmware_1000) []) = Inr ()"
proof -
  let ?data = "pad firmware_1000"
  let ?u = "echo (\<lambda>_. None) (\<lambda>n bs. bs)"
  have 1: "no_call_raised ?u [] (fst (write_and_verify ?u 0 ?data []))"
    by (rule quiet_device) (rule raises_echo)
  have 2: "read_back ?u ([] @ pre) 0 n = block_of ?data n"
    if "n < 8 * page_count ?data"
      and "fst (write_and_verify ?u 0 ?data []) = pre @ request_and_read 0 n @ post"
    for pre post n
    using echo_run_read [OF that(2) that(1)] by simp
  show ?thesis
    using write_then_verify_succeeds [of ?u "[]" 0 ?data, OF 1 2] by simp
qed


section \<open>The whole run\<close>

lemma orderly_suffix: "orderly u hist (before @ cs) \<Longrightarrow> orderly u (hist @ before) cs"
proof (induction before arbitrary: hist)
  case Nil
  then show ?case by simp
next
  case (Cons a before)
  from Cons.prems have "orderly u (hist @ [a]) (before @ cs)" by simp
  then have "orderly u ((hist @ [a]) @ before) cs" by (rule Cons.IH)
  then show ?case by simp
qed

lemma orderly_prefix_handles:
  "orderly u hist (before @ cs) \<Longrightarrow> c \<in> set before \<Longrightarrow> handle_of c = Some d
   \<Longrightarrow> d < length hist + length before"
proof (induction before arbitrary: hist)
  case Nil
  then show ?case by simp
next
  case (Cons a before)
  show ?case
  proof (cases "c = a")
    case True
    then show ?thesis using Cons.prems by simp
  next
    case False
    then have in_rest: "c \<in> set before" using Cons.prems(2) by simp
    have rest: "orderly u (hist @ [a]) (before @ cs)" using Cons.prems(1) by simp
    have "d < length (hist @ [a]) + length before"
      using rest in_rest Cons.prems(3) by (rule Cons.IH)
    then show ?thesis by simp
  qed
qed

lemma orderly_configurations:
  "orderly u hist cs \<Longrightarrow> SetConfiguration d \<in> set cs \<Longrightarrow> length hist \<le> Suc d"
proof (induction cs arbitrary: hist)
  case Nil
  then show ?case by simp
next
  case (Cons a cs)
  show ?case
  proof (cases "SetConfiguration d = a")
    case True
    then show ?thesis using Cons.prems(1) by auto
  next
    case False
    then have in_rest: "SetConfiguration d \<in> set cs" using Cons.prems(2) by simp
    have rest: "orderly u (hist @ [a]) cs" using Cons.prems(1) by simp
    have "length (hist @ [a]) \<le> Suc d"
      using rest in_rest by (rule Cons.IH)
    then show ?thesis by simp
  qed
qed

lemma orderly_append:
  "orderly u hist a \<Longrightarrow> orderly u (hist @ a) b \<Longrightarrow> orderly u hist (a @ b)"
proof (induction a arbitrary: hist)
  case Nil
  then show ?case by simp
next
  case (Cons c a)
  from Cons.prems(1) have tail: "orderly u (hist @ [c]) a" by simp
  from Cons.prems(2) have "orderly u ((hist @ [c]) @ a) b" by simp
  with tail have "orderly u (hist @ [c]) (a @ b)" by (rule Cons.IH)
  moreover have "\<exists>rest. a @ b = SetConfiguration (length hist) # rest"
    if "\<exists>rest. a = SetConfiguration (length hist) # rest"
    using that by auto
  ultimately show ?case
    using Cons.prems(1) unfolding append_Cons orderly.simps by blast
qed

lemma orderly_seq:
  assumes "orderly u hist (fst (m hist))"
    and "\<And>a. snd (m hist) = Inr a \<Longrightarrow>
           orderly u (hist @ fst (m hist)) (fst (f a (hist @ fst (m hist))))"
  shows "orderly u hist (fst (seq m f hist))"
proof (cases "snd (m hist)")
  case (Inl e)
  then show ?thesis using assms(1) by (simp add: seq_stops [of m hist e f])
next
  case (Inr a)
  show ?thesis
    unfolding fst_seq_Inr [of m hist a f, OF Inr]
    using assms(1) assms(2) [OF Inr] by (rule orderly_append)
qed

lemma orderly_transfers:
  assumes "\<forall>x\<in>set cs. \<exists>d<length hist. handle_of x = Some d \<and> x \<noteq> SetConfiguration d"
  shows "orderly u hist cs"
  using assms
proof (induction cs arbitrary: hist)
  case Nil
  show ?case by simp
next
  case (Cons c cs)
  have "\<forall>x\<in>set cs. \<exists>d<length (hist @ [c]). handle_of x = Some d \<and> x \<noteq> SetConfiguration d"
    using Cons.prems by (auto intro: less_SucI)
  then have "orderly u (hist @ [c]) cs" by (rule Cons.IH)
  then show ?case using Cons.prems by auto
qed

lemma bound_before_append: "bound_before hist dongle \<Longrightarrow> bound_before (hist @ cs) dongle"
  by (auto simp add: bound_before_def)

lemma jump_result:
  "snd (jump_to_bootloader u p dongle hist) =
     Inr (if raises u (hist @ [Find 0x1915 p]) \<noteq> None then dongle
          else if found u (hist @ [Find 0x1915 p]) then Dev (length hist) else NoneV)"
  by (auto simp add: jump_to_bootloader_def seq_def attempt_def find_eq entry_command_eq
      usb_util_dispose_resources_def dongle_reset_def issue_def ret_def
      split: option.splits prod.splits sum.splits)

lemma handle_of_entry_call [simp]: "handle_of (entry_call p d) = Some d"
  by (simp add: entry_call_def)

lemma entry_call_not_configuration [simp]: "entry_call p d \<noteq> SetConfiguration d'"
  by (simp add: entry_call_def)

lemma entry_call_not_find [simp]: "entry_call p d \<noteq> Find v q"
  by (simp add: entry_call_def)

lemma jump_orderly:
  "p \<noteq> 0x0101 \<Longrightarrow> orderly u hist (fst (jump_to_bootloader u p dongle hist))"
  by (simp add: jump_calls)

lemma jump_bound:
  assumes "bound_before hist dongle" and "snd (jump_to_bootloader u p dongle hist) = Inr d"
  shows "bound_before (hist @ fst (jump_to_bootloader u p dongle hist)) d"
  using assms unfolding jump_result
  by (auto simp add: bound_before_def jump_calls split: if_splits)

lemma find_application_orderly: "orderly u hist (fst (find_application u dongle hist))"
  unfolding find_application_eq
  by (rule orderly_seq) (simp_all add: jump_orderly)

lemma find_application_bound:
  assumes "bound_before hist dongle" and "snd (find_application u dongle hist) = Inr d"
  shows "bound_before (hist @ fst (find_application u dongle hist)) d"
proof -
  let ?j = "jump_to_bootloader u 0x0102 dongle"
  obtain d1 where d1: "snd (?j hist) = Inr d1"
    using jump_never_raises by blast
  have b1: "bound_before (hist @ fst (?j hist)) d1"
    using assms(1) d1 by (rule jump_bound)
  have calls: "fst (find_application u dongle hist) =
      fst (?j hist) @ fst (jump_to_bootloader u 0x7777 d1 (hist @ fst (?j hist)))"
    unfolding find_application_eq using d1 by (rule fst_seq_Inr)
  have res: "snd (find_application u dongle hist) =
      snd (jump_to_bootloader u 0x7777 d1 (hist @ fst (?j hist)))"
    unfolding find_application_eq using d1 by (rule snd_seq_Inr)
  have "bound_before ((hist @ fst (?j hist)) @
      fst (jump_to_bootloader u 0x7777 d1 (hist @ fst (?j hist)))) d"
    using b1 assms(2) [unfolded res] by (rule jump_bound)
  then show ?thesis by (simp add: calls)
qed

lemma configuration_eq:
  "dongle_set_configuration u d hist =
     ([SetConfiguration d],
      case raises u (hist @ [SetConfiguration d]) of
        None \<Rightarrow> Inr () | Some x \<Rightarrow> Inl (Raised x))"
  by (simp add: dongle_set_configuration_def issue_def)

lemma poll_calls:
  "fst (poll_bootloader u dongle hist) =
     (if raises u (hist @ [Find 0x1915 0x0101]) \<noteq> None \<or> \<not> found u (hist @ [Find 0x1915 0x0101])
      then [Find 0x1915 0x0101]
      else [Find 0x1915 0x0101, SetConfiguration (length hist)])"
  by (auto simp add: poll_bootloader_def seq_def attempt_def find_eq configuration_eq caught_def
      ret_def raise_def split: option.splits prod.splits sum.splits)

lemma poll_bound:
  assumes "bound_before hist dongle"
    and "snd (poll_bootloader u dongle hist) = Inr f"
  shows "bound_before (hist @ fst (poll_bootloader u dongle hist))
           (case f of Break d \<Rightarrow> d | Continue d \<Rightarrow> d)"
  using assms
  by (auto simp add: poll_bootloader_def seq_def attempt_def find_eq configuration_eq caught_def
      ret_def raise_def bound_before_def split: option.splits prod.splits sum.splits if_splits)

lemma poll_orderly: "orderly u hist (fst (poll_bootloader u dongle hist))"
  by (simp add: poll_calls)

lemma find_bootloader_orderly: "orderly u hist (fst (find_bootloader u polls dongle hist))"
proof (induction polls arbitrary: dongle hist)
  case 0
  show ?case by (simp add: ret_def)
next
  case (Suc polls)
  show ?case
    unfolding find_bootloader.simps
  proof (rule orderly_seq)
    show "orderly u hist (fst (poll_bootloader u dongle hist))" by (rule poll_orderly)
  next
    fix f
    show "orderly u (hist @ fst (poll_bootloader u dongle hist))
        (fst ((case f of Break d \<Rightarrow> ret d | Continue d \<Rightarrow> find_bootloader u polls d)
          (hist @ fst (poll_bootloader u dongle hist))))"
      by (cases f) (simp_all add: ret_def Suc.IH)
  qed
qed

lemma find_bootloader_bound:
  assumes "bound_before hist dongle" and "snd (find_bootloader u polls dongle hist) = Inr d"
  shows "bound_before (hist @ fst (find_bootloader u polls dongle hist)) d"
  using assms
proof (induction polls arbitrary: dongle hist)
  case 0
  then show ?case by (simp add: ret_def)
next
  case (Suc polls)
  let ?p = "poll_bootloader u dongle"
  let ?k = "\<lambda>f. case f of Break d \<Rightarrow> ret d | Continue d \<Rightarrow> find_bootloader u polls d"
  show ?case
  proof (cases "snd (?p hist)")
    case (Inl e)
    then show ?thesis
      using Suc.prems(2) by (simp add: seq_stops [of ?p hist e ?k])
  next
    case (Inr f)
    have b: "bound_before (hist @ fst (?p hist)) (case f of Break d \<Rightarrow> d | Continue d \<Rightarrow> d)"
      using Suc.prems(1) Inr by (rule poll_bound)
    have calls: "fst (find_bootloader u (Suc polls) dongle hist) =
        fst (?p hist) @ fst (?k f (hist @ fst (?p hist)))"
      unfolding find_bootloader.simps using Inr by (rule fst_seq_Inr)
    have res: "snd (find_bootloader u (Suc polls) dongle hist) = snd (?k f (hist @ fst (?p hist)))"
      unfolding find_bootloader.simps using Inr by (rule snd_seq_Inr)
    show ?thesis
    proof (cases f)
      case (Break d')
      then show ?thesis
        using b Suc.prems(2) unfolding calls res by (simp add: ret_def)
    next
      case (Continue d')
      have "bound_before ((hist @ fst (?p hist)) @
          fst (find_bootloader u polls d' (hist @ fst (?p hist)))) d"
        using b Suc.prems(2) unfolding res Continue
        by (intro Suc.IH) simp_all
      then show ?thesis unfolding calls Continue by simp
    qed
  qed
qed

lemma write_and_verify_handle:
  "only_calls (\<lambda>c. handle_of c = Some d \<and> c \<noteq> SetConfiguration d) (write_and_verify u d data)"
  unfolding write_and_verify_def write_image_def write_page_def write_block_def Let_def
    verify_image_def verify_page_def verify_block_def
  by (intro only_calls_for_each only_calls_seq only_calls_write only_calls_read)
    (simp_all add: only_calls_ret only_calls_raise)

lemma write_and_verify_orderly:
  assumes "d < length hist"
  shows "orderly u hist (fst (write_and_verify u d data hist))"
proof (rule orderly_transfers)
  show "\<forall>x\<in>set (fst (write_and_verify u d data hist)).
      \<exists>d<length hist. handle_of x = Some d \<and> x \<noteq> SetConfiguration d"
    using write_and_verify_handle [of d u data] assms unfolding only_calls_def by blast
qed

lemma flash_orderly:
  assumes "bound_before hist dongle"
  shows "orderly u hist (fst (seq (require_dongle dongle) (\<lambda>d. write_and_verify u d data) hist))"
proof (cases dongle)
  case (Dev d)
  then have "d < length hist" using assms by (simp add: bound_before_def)
  then have "orderly u hist (fst (write_and_verify u d data hist))"
    by (rule write_and_verify_orderly)
  then show ?thesis
    by (simp add: Dev require_dongle_def seq_def ret_def split: prod.splits)
qed (simp_all add: require_dongle_def seq_def raise_def)

lemma main_orderly: "orderly u [] (fst (main u polls firmware))"
  unfolding main_def Let_def
proof (rule orderly_seq)
  show "orderly u [] (fst (find_application u Unbound []))"
    by (rule find_application_orderly)
next
  fix a
  assume a: "snd (find_application u Unbound []) = Inr a"
  let ?h = "[] @ fst (find_application u Unbound [])"
  have ba: "bound_before ?h a"
    by (rule find_application_bound [OF _ a]) (simp add: bound_before_def)
  show "orderly u ?h (fst (seq (find_bootloader u polls a)
      (\<lambda>dongle. seq (require_dongle dongle) (\<lambda>d. write_and_verify u d (pad firmware))) ?h))"
  proof (rule orderly_seq)
    show "orderly u ?h (fst (find_bootloader u polls a ?h))"
      by (rule find_bootloader_orderly)
  next
    fix b
    assume b: "snd (find_bootloader u polls a ?h) = Inr b"
    have "bound_before (?h @ fst (find_bootloader u polls a ?h)) b"
      using ba b by (rule find_bootloader_bound)
    then show "orderly u (?h @ fst (find_bootloader u polls a ?h))
        (fst (seq (require_dongle b) (\<lambda>d. write_and_verify u d (pad firmware))
          (?h @ fst (find_bootloader u polls a ?h))))"
      by (rule flash_orderly)
  qed
qed

lemma find_application_never_raises: "\<exists>d. snd (find_application u dongle hist) = Inr d"
proof -
  obtain d1 where d1: "snd (jump_to_bootloader u 0x0102 dongle hist) = Inr d1"
    using jump_never_raises by blast
  have "snd (find_application u dongle hist) =
      snd (jump_to_bootloader u 0x7777 d1 (hist @ fst (jump_to_bootloader u 0x0102 dongle hist)))"
    unfolding find_application_eq using d1 by (rule snd_seq_Inr)
  then show ?thesis using jump_never_raises by simp
qed

lemma main_starts:
  "\<exists>rest. fst (main u (Suc polls) firmware) =
     fst (find_application u Unbound []) @ Find 0x1915 0x0101 # rest"
proof -
  let ?k = "\<lambda>dongle. seq (require_dongle dongle) (\<lambda>d. write_and_verify u d (pad firmware))"
  let ?h = "[] @ fst (find_application u Unbound [])"
  obtain a where a: "snd (find_application u Unbound []) = Inr a"
    using find_application_never_raises by blast
  have "fst (main u (Suc polls) firmware) =
      fst (find_application u Unbound []) @ fst (seq (find_bootloader u (Suc polls) a) ?k ?h)"
    unfolding main_def Let_def using a by (rule fst_seq_Inr)
  moreover obtain r1 where "fst (seq (find_bootloader u (Suc polls) a) ?k ?h) =
      fst (find_bootloader u (Suc polls) a ?h) @ r1"
    using seq_first by blast
  moreover obtain r2 where "fst (find_bootloader u (Suc polls) a ?h) =
      fst (poll_bootloader u a ?h) @ r2"
    unfolding find_bootloader.simps using seq_first by blast
  moreover have "\<exists>r3. fst (poll_bootloader u a ?h) = Find 0x1915 0x0101 # r3"
    by (simp add: poll_calls)
  ultimately show ?thesis by auto
qed

lemma both_present_search:
  "fst (find_application both_present Unbound []) =
     [Find 0x1915 0x0102, Write 0 0x01 [0xFF] (Some 2500), DisposeResources 0, Reset 0,
      Find 0x1915 0x7777, CtrlTransfer 4 0x40 0xFF 0 0 None (Some 2500),
      DisposeResources 4, Reset 4]"
proof -
  obtain d where "fst (find_application both_present Unbound []) =
     fst (jump_to_bootloader both_present 0x0102 Unbound []) @
     fst (jump_to_bootloader both_present 0x7777 d
           ([] @ fst (jump_to_bootloader both_present 0x0102 Unbound [])))"
    using find_application_calls by blast
  then show ?thesis by (simp add: jump_calls entry_call_def both_present_def)
qed

text \<open>
  C10.  Take any lookup of the bootloader (vendor 0x1915, product 0x0101) in a run of the
  script that returns a device.  The call right after it is \<^verbatim>\<open>set_configuration\<close> on the
  device object it returned, no other \<^verbatim>\<open>set_configuration\<close> on that object is made in the
  whole run, and no call on that object comes before: every write and read on it comes
  after its \<^verbatim>\<open>set_configuration\<close>.
\<close>

theorem set_configuration_once_before_transfers:
  assumes run: "fst (main u polls firmware) = before @ Find 0x1915 0x0101 # after"
    and returned: "raises u (before @ [Find 0x1915 0x0101]) = None"
    and present: "found u (before @ [Find 0x1915 0x0101])"
  shows "\<exists>rest. after = SetConfiguration (length before) # rest
           \<and> SetConfiguration (length before) \<notin> set before
           \<and> SetConfiguration (length before) \<notin> set rest
           \<and> (\<forall>c\<in>set before. handle_of c \<noteq> Some (length before))"
proof -
  have all: "orderly u [] (before @ Find 0x1915 0x0101 # after)"
    using main_orderly [of u polls firmware] unfolding run .
  then have here: "orderly u ([] @ before) (Find 0x1915 0x0101 # after)"
    by (rule orderly_suffix)
  then obtain rest where rest: "after = SetConfiguration (length before) # rest"
    using returned present by auto
  have early: "handle_of c \<noteq> Some (length before)" if "c \<in> set before" for c
    using orderly_prefix_handles [OF all that, of "length before"] by auto
  have "orderly u (before @ [Find 0x1915 0x0101, SetConfiguration (length before)]) rest"
    using here unfolding rest by simp
  then have late: "SetConfiguration (length before) \<notin> set rest"
    using orderly_configurations [of u _ rest "length before"] by fastforce
  have "SetConfiguration (length before) \<notin> set before"
    using early by force
  then show ?thesis using rest late early by blast
qed

theorem set_configuration_once_before_transfers_witness:
  "\<exists>rest. fst (main both_present (Suc 0) firmware_1000) =
      [Find 0x1915 0x0102, Write 0 0x01 [0xFF] (Some 2500), DisposeResources 0, Reset 0,
       Find 0x1915 0x7777, CtrlTransfer 4 0x40 0xFF 0 0 None (Some 2500),
       DisposeResources 4, Reset 4] @ Find 0x1915 0x0101 # SetConfiguration 8 # rest
     \<and> SetConfiguration 8 \<notin> set rest"
proof -
  let ?before = "[Find 0x1915 0x0102, Write 0 0x01 [0xFF] (Some 2500), DisposeResources 0,
       Reset 0, Find 0x1915 0x7777, CtrlTransfer 4 0x40 0xFF 0 0 None (Some 2500),
       DisposeResources 4, Reset 4]"
  obtain after where run: "fst (main both_present (Suc 0) firmware_1000) =
      ?before @ Find 0x1915 0x0101 # after"
    using main_starts [of both_present 0 firmware_1000] unfolding both_present_search by blast
  have returned: "raises both_present (?before @ [Find 0x1915 0x0101]) = None"
    by (simp add: both_present_def)
  have present: "found both_present (?before @ [Find 0x1915 0x0101])"
    by (simp add: both_present_def)
  have len: "length ?before = 8" by simp
  show ?thesis
    using set_configuration_once_before_transfers [OF run returned present] run unfolding len by auto
qed

end
